theory Spec2Isabelle
  imports Main "HOL-Library.Signed_Division"
begin

unbundle bit_operations_syntax

section \<open>SIMDVector: the iterators of \<open>du1simd.hpp\<close>\<close>

text \<open>
  The templates \<open>simd_vector_iterator<T, S>\<close> and \<open>simd_vector_simd_iterator<T, S>\<close>
  hold a base pointer and an offset of type \<open>std::ptrdiff_t\<close>. Pointers are byte
  addresses (\<open>nat\<close>, with \<open>0\<close> for \<open>nullptr\<close>), offsets are \<open>int\<close>. Every
  method of the element iterator recomputes \<open>int k = sizeof(S) / sizeof(T)\<close>; the
  embedding takes that constant of the instantiation as the parameter \<open>k\<close>.
  C++ division and remainder truncate towards zero: \<open>sdiv\<close> and \<open>smod\<close>.
\<close>

type_synonym addr = nat

record simd_vector_simd_iterator =
  simd_base :: addr
  simd_offset :: int

record simd_vector_iterator =
  base :: addr
  offset :: int

definition lower_block :: "int \<Rightarrow> simd_vector_iterator \<Rightarrow> simd_vector_simd_iterator" where
  "lower_block k it = \<lparr>simd_base = base it, simd_offset = offset it sdiv k\<rparr>"

definition upper_block :: "int \<Rightarrow> simd_vector_iterator \<Rightarrow> simd_vector_simd_iterator" where
  "upper_block k it = \<lparr>simd_base = base it, simd_offset = (offset it sdiv k) + 1\<rparr>"

definition lower_offset :: "int \<Rightarrow> simd_vector_iterator \<Rightarrow> int" where
  "lower_offset k it = offset it smod k"

definition upper_offset :: "int \<Rightarrow> simd_vector_iterator \<Rightarrow> int" where
  "upper_offset k it = (offset it smod k) - (k - 1)"


definition it_ne :: "simd_vector_iterator \<Rightarrow> simd_vector_iterator \<Rightarrow> bool" where
  "it_ne a v = (base a \<noteq> base v \<or> offset a \<noteq> offset v)"

definition it_inc :: "simd_vector_iterator \<Rightarrow> simd_vector_iterator" where
  "it_inc a = a\<lparr>offset := offset a + 1\<rparr>"

definition it_dec :: "simd_vector_iterator \<Rightarrow> simd_vector_iterator" where
  "it_dec a = a\<lparr>offset := offset a - 1\<rparr>"

definition it_add :: "simd_vector_iterator \<Rightarrow> int \<Rightarrow> simd_vector_iterator" where
  "it_add a n = a\<lparr>offset := offset a + n\<rparr>"

definition it_sub :: "simd_vector_iterator \<Rightarrow> int \<Rightarrow> simd_vector_iterator" where
  "it_sub a n = a\<lparr>offset := offset a - n\<rparr>"

definition it_diff :: "simd_vector_iterator \<Rightarrow> simd_vector_iterator \<Rightarrow> int" where
  "it_diff a v = offset a - offset v"

text \<open>The same operators of the lane iterator.\<close>

definition simd_eq :: "simd_vector_simd_iterator \<Rightarrow> simd_vector_simd_iterator \<Rightarrow> bool" where
  "simd_eq a v = (simd_base a = simd_base v \<and> simd_offset a = simd_offset v)"

definition simd_ne :: "simd_vector_simd_iterator \<Rightarrow> simd_vector_simd_iterator \<Rightarrow> bool" where
  "simd_ne a v = (simd_base a \<noteq> simd_base v \<or> simd_offset a \<noteq> simd_offset v)"

definition simd_inc :: "simd_vector_simd_iterator \<Rightarrow> simd_vector_simd_iterator" where
  "simd_inc a = a\<lparr>simd_offset := simd_offset a + 1\<rparr>"

definition simd_dec :: "simd_vector_simd_iterator \<Rightarrow> simd_vector_simd_iterator" where
  "simd_dec a = a\<lparr>simd_offset := simd_offset a - 1\<rparr>"

section \<open>Memory seen through the iterators\<close>

text \<open>
  The constructor guarantees one region: \<open>rounded_count\<close> elements starting at
  \<open>aligned_begin\<close>. A \<open>region\<close> is that array. Reading through an iterator whose base
  is not the region's start, or whose position is outside the region, is undefined
  behaviour in C++; the embedding returns the fault \<open>OutOfBounds\<close> there. The lane
  iterator reads \<open>k\<close> consecutive elements as one value of the carrier type: a lane is
  the list of its \<open>k\<close> elements, element \<open>0\<close> first.
\<close>

datatype fault = OutOfBounds | AssertionFailed | InvalidFree

record 'a region =
  start :: addr
  elems :: "'a list"

definition deref :: "'a region \<Rightarrow> simd_vector_iterator \<Rightarrow> fault + 'a" where
  "deref r it =
     (if base it = start r \<and> 0 \<le> offset it \<and> offset it < int (length (elems r))
      then Inr (elems r ! nat (offset it))
      else Inl OutOfBounds)"


definition simd_deref :: "int \<Rightarrow> 'a region \<Rightarrow> simd_vector_simd_iterator \<Rightarrow> fault + 'a list" where
  "simd_deref k r it =
     (if simd_base it = start r \<and> 0 < k \<and> 0 \<le> simd_offset it
         \<and> (simd_offset it + 1) * k \<le> int (length (elems r))
      then Inr (take (nat k) (drop (nat (simd_offset it * k)) (elems r)))
      else Inl OutOfBounds)"

definition simd_index :: "int \<Rightarrow> 'a region \<Rightarrow> simd_vector_simd_iterator \<Rightarrow> int \<Rightarrow> fault + 'a list" where
  "simd_index k r it n = simd_deref k r (it\<lparr>simd_offset := simd_offset it + n\<rparr>)"

section \<open>The element type \<open>float\<close>\<close>

text \<open>
  \<open>du1example::tester\<close> is written for \<open>float\<close>, the binary32 format of IEEE
  754. Every finite number of the format is an integer multiple of \<open>2 ^ -149\<close>, the
  smallest positive one, and \<open>Float n\<close> is the number \<open>n * 2 ^ -149\<close>; the numbers of
  the format are those where \<open>n\<close> has at most 24 significant bits and a magnitude
  below \<open>2 ^ 277\<close>, the number \<open>2 ^ 128\<close>. The other values are the two infinities
  (\<open>Infinity True\<close> is the negative one) and NaN. The sign of a zero is not kept.
  Addition is the one of the default rounding mode: the exact sum, rounded to 24
  significant bits, to the nearest value and to the even one on a tie, and to an
  infinity when the rounded magnitude reaches \<open>2 ^ 128\<close>. \<open>float_of_int\<close> is the
  conversion of an integer to \<open>float\<close>, which rounds in the same way, and
  \<open>scaled j v\<close> is the number \<open>v * 2 ^ (j - 149)\<close>.
\<close>

function bit_length :: "int \<Rightarrow> nat" where
  "bit_length n = (if n \<le> 0 then 0 else Suc (bit_length (n div 2)))"
  by pat_completeness auto
termination
  by (relation "measure nat") simp_all

declare bit_length.simps [simp del]

datatype float = Float int | Infinity bool | NaN

definition round_float :: "int \<Rightarrow> float" where
  "round_float z =
     (let a = \<bar>z\<bar> in
      if a < 2 ^ 24 then Float z
      else
        let sh = bit_length a - 24;
            q = a div 2 ^ sh;
            r = a mod 2 ^ sh;
            half = 2 ^ (sh - 1);
            q' = (if half < r \<or> (r = half \<and> odd q) then q + 1 else q);
            m = q' * 2 ^ sh
        in if 2 ^ 277 \<le> m then Infinity (z < 0)
           else Float (if z < 0 then - m else m))"

definition float_of_int :: "int \<Rightarrow> float" where
  "float_of_int n = round_float (n * 2 ^ 149)"

definition scaled :: "nat \<Rightarrow> int \<Rightarrow> float" where
  "scaled j v = Float (v * 2 ^ j)"

instantiation float :: "{zero, plus}"
begin

definition zero_float :: float where
  "zero_float = Float 0"

fun plus_float :: "float \<Rightarrow> float \<Rightarrow> float" where
  "plus_float (Float x) (Float y) = round_float (x + y)"
| "plus_float (Infinity s) (Infinity t) = (if s = t then Infinity s else NaN)"
| "plus_float (Infinity s) (Float y) = Infinity s"
| "plus_float (Float x) (Infinity t) = Infinity t"
| "plus_float NaN y = NaN"
| "plus_float x NaN = NaN"

instance ..

end

section \<open>The lane operations of \<open>du1test.cpp\<close>\<close>

text \<open>
  \<open>du1simd::simd<float, float>\<close> (\<open>k = 1\<close>) and \<open>du1simd::simd<float, __m128>\<close>
  (\<open>k = 4\<close>). The masks are the tables \<open>lmask_\<close> and \<open>umask_\<close>: \<open>lmask_[g]\<close> has all
  bits set in the elements \<open>g, ..., k - 1\<close>, \<open>umask_[j]\<close> in the elements \<open>0, ..., j\<close>
  (\<open>_mm_set_epi32\<close> lists element \<open>3\<close> first), and \<open>_mm_and_ps\<close> keeps an element
  under a set mask and gives \<open>0\<close> under a clear one. The assertions on the gaps are
  faults. \<open>add\<close> adds element by element. \<open>sum\<close> of \<open>simd<float, float>\<close> returns its
  argument; \<open>sum\<close> of \<open>simd<float, __m128>\<close> applies \<open>_mm_hadd_ps(a, a)\<close> twice and
  stores element \<open>0\<close>, which is \<open>(a0 + a1) + (a2 + a3)\<close>. The source has no carrier of
  another width; a lane of another width is folded from the right. The operations
  are written over any element type with an addition and a zero, which for the
  program is \<open>float\<close>.
\<close>

definition lmask :: "int \<Rightarrow> int \<Rightarrow> bool list" where
  "lmask k g = map (\<lambda>i. g \<le> int i) [0..<nat k]"

definition umask :: "int \<Rightarrow> int \<Rightarrow> bool list" where
  "umask k j = map (\<lambda>i. int i \<le> j) [0..<nat k]"

definition and_ps :: "'a::zero list \<Rightarrow> bool list \<Rightarrow> 'a list" where
  "and_ps a m = map2 (\<lambda>x b. if b then x else 0) a m"

definition simd_zero :: "int \<Rightarrow> 'a::zero list" where
  "simd_zero k = replicate (nat k) 0"

definition simd_add :: "'a::plus list \<Rightarrow> 'a list \<Rightarrow> 'a list" where
  "simd_add a b = map2 (+) a b"

fun simd_hsum :: "'a::{plus,zero} list \<Rightarrow> 'a" where
  "simd_hsum [a] = a"
| "simd_hsum [a0, a1, a2, a3] = (a0 + a1) + (a2 + a3)"
| "simd_hsum a = foldr (+) a 0"

definition mask_lower :: "int \<Rightarrow> 'a::zero list \<Rightarrow> int \<Rightarrow> fault + 'a list" where
  "mask_lower k a lgap =
     (if 0 \<le> lgap \<and> lgap < k then Inr (and_ps a (lmask k lgap)) else Inl AssertionFailed)"

definition mask_upper :: "int \<Rightarrow> 'a::zero list \<Rightarrow> int \<Rightarrow> fault + 'a list" where
  "mask_upper k a ugap =
     (if - k < ugap \<and> ugap \<le> 0 then Inr (and_ps a (umask k (ugap + (k - 1))))
      else Inl AssertionFailed)"

definition mask_both :: "int \<Rightarrow> 'a::zero list \<Rightarrow> int \<Rightarrow> int \<Rightarrow> fault + 'a list" where
  "mask_both k a lgap ugap =
     (case mask_lower k a lgap of Inl f \<Rightarrow> Inl f | Inr m \<Rightarrow> mask_upper k m ugap)"

section \<open>The two reductions of \<open>du1example::tester\<close>\<close>

text \<open>\<open>tester::sum\<close>: the plain fold \<open>for (; b != e; ++b) acc = acc + *b\<close>.\<close>

function tester_sum_loop ::
  "'a::plus region \<Rightarrow> simd_vector_iterator \<Rightarrow> simd_vector_iterator \<Rightarrow> 'a \<Rightarrow> fault + 'a" where
  "tester_sum_loop r b e acc =
     (if it_ne b e
      then (case deref r b of
              Inl f \<Rightarrow> Inl f
            | Inr x \<Rightarrow> tester_sum_loop r (it_inc b) e (acc + x))
      else Inr acc)"
  by pat_completeness auto
termination
  by (relation "measure (\<lambda>(r, b, e, acc). nat (int (length (elems r)) - offset b))")
    (auto simp: deref_def it_inc_def split: if_splits)

definition tester_sum ::
  "'a::{plus,zero} region \<Rightarrow> simd_vector_iterator \<Rightarrow> simd_vector_iterator \<Rightarrow> fault + 'a" where
  "tester_sum r b e = tester_sum_loop r b e 0"

text \<open>
  \<open>tester::simd_sum\<close>. The loop \<open>for (++bb; bb != ee; ++bb) acc = add(acc, *bb)\<close>
  returns the accumulator together with the iterator it stopped at, which the last
  statement dereferences.
\<close>

function simd_sum_loop ::
  "int \<Rightarrow> 'a::plus region \<Rightarrow> simd_vector_simd_iterator \<Rightarrow> simd_vector_simd_iterator
     \<Rightarrow> 'a list \<Rightarrow> fault + (simd_vector_simd_iterator \<times> 'a list)" where
  "simd_sum_loop k r bb ee acc =
     (if simd_ne bb ee
      then (case simd_deref k r bb of
              Inl f \<Rightarrow> Inl f
            | Inr x \<Rightarrow> simd_sum_loop k r (simd_inc bb) ee (simd_add acc x))
      else Inr (bb, acc))"
  by pat_completeness auto
termination
proof (relation "measure (\<lambda>(k, r, bb, ee, acc). nat (int (length (elems r)) - simd_offset bb))")
  show "wf (measure (\<lambda>(k, r, bb, ee, acc). nat (int (length (elems r)) - simd_offset bb)))"
    by simp
next
  fix k :: int and r :: "'a region" and bb ee :: simd_vector_simd_iterator
    and acc x :: "'a list"
  assume "simd_deref k r bb = Inr x"
  then have k: "0 < k" and lo: "0 \<le> simd_offset bb"
    and hi: "(simd_offset bb + 1) * k \<le> int (length (elems r))"
    by (auto simp: simd_deref_def split: if_splits)
  have "(simd_offset bb + 1) * 1 \<le> (simd_offset bb + 1) * k"
    using k lo by (intro mult_left_mono) auto
  with hi have "simd_offset bb < int (length (elems r))"
    by simp
  then show "((k, r, simd_inc bb, ee, simd_add acc x), (k, r, bb, ee, acc))
      \<in> measure (\<lambda>(k, r, bb, ee, acc). nat (int (length (elems r)) - simd_offset bb))"
    by (simp add: simd_inc_def)
qed

definition tester_simd_sum ::
  "int \<Rightarrow> 'a::{plus,zero} region \<Rightarrow> simd_vector_iterator \<Rightarrow> simd_vector_iterator \<Rightarrow> fault + 'a" where
  "tester_simd_sum k r b e =
     (let bb = lower_block k b; ee = upper_block k e in
      if simd_eq bb ee then Inr 0
      else
        let ee = simd_dec ee in
        if simd_eq bb ee
        then (case simd_deref k r bb of
                Inl f \<Rightarrow> Inl f
              | Inr a \<Rightarrow>
                  (case mask_both k a (lower_offset k b) (upper_offset k e) of
                     Inl f \<Rightarrow> Inl f
                   | Inr m \<Rightarrow> Inr (simd_hsum m)))
        else (case simd_deref k r bb of
                Inl f \<Rightarrow> Inl f
              | Inr a \<Rightarrow>
                  (case mask_lower k a (lower_offset k b) of
                     Inl f \<Rightarrow> Inl f
                   | Inr acc \<Rightarrow>
                       (case simd_sum_loop k r (simd_inc bb) ee acc of
                          Inl f \<Rightarrow> Inl f
                        | Inr (bb', acc') \<Rightarrow>
                            (case simd_deref k r bb' of
                               Inl f \<Rightarrow> Inl f
                             | Inr a' \<Rightarrow>
                                 (case mask_upper k a' (upper_offset k e) of
                                    Inl f \<Rightarrow> Inl f
                                  | Inr m \<Rightarrow> Inr (simd_hsum (simd_add acc' m))))))))"


section \<open>The container \<open>simd_vector<T, S>\<close>\<close>

text \<open>
  What the source takes from its platform is the record \<open>platform\<close>: whether
  \<open>__GNUC__\<close> is defined, \<open>sizeof(T)\<close> and \<open>sizeof(S)\<close>, the width in bits of
  \<open>std::ptrdiff_t\<close>, which is also the width of \<open>std::size_t\<close>, and where the
  two allocators find memory: \<open>chunk h a n\<close> is the address of the chunk in which
  the C library serves a request for \<open>n\<close> bytes at the alignment \<open>a\<close>, and
  \<open>operator_new h n\<close> is the address of the block that \<open>operator new[]\<close> returns
  for \<open>n\<close> bytes; \<open>0\<close> and \<open>None\<close> say that there is no memory. The heap records
  the live blocks (start address and length in bytes), in order the blocks that
  \<open>free\<close> or \<open>delete\<close> released, and the number of allocations that were asked
  for.
\<close>

datatype exn = alignment_exception | bad_alloc

record heap =
  live :: "addr \<rightharpoonup> nat"
  released :: "addr list"
  requests :: nat

record platform =
  gnuc :: bool
  sizeof_T :: nat
  sizeof_S :: nat
  ptrdiff_bits :: nat
  chunk :: "heap \<Rightarrow> nat \<Rightarrow> nat \<Rightarrow> addr"
  operator_new :: "heap \<Rightarrow> nat \<Rightarrow> addr option"

record simd_vector =
  vec_k :: int
  raw_block :: addr
  aligned_begin :: addr
  aligned_end :: addr
  content_size :: nat

text \<open>
  The arithmetic of \<open>std::size_t\<close> is modulo \<open>2 ^ w\<close>, \<open>w\<close> its width:
  \<open>to_size_t\<close> reduces a result. \<open>rounded_count\<close> is the expression
  \<open>(s % k == 0) ? s : ((s / k) + 1) * k\<close> of the constructor.
\<close>

definition to_size_t :: "platform \<Rightarrow> nat \<Rightarrow> nat" where
  "to_size_t pf n = n mod 2 ^ ptrdiff_bits pf"

definition rounded_count :: "platform \<Rightarrow> nat \<Rightarrow> nat \<Rightarrow> nat" where
  "rounded_count pf s k = (if s mod k = 0 then s else to_size_t pf (((s div k) + 1) * k))"

text \<open>
  The two library calls of the constructor align an address with the mask
  \<open>- alignment\<close>, as \<open>(p - 1 + alignment) & - alignment\<close>: this is how
  \<open>std::align\<close> of libstdc++ computes the aligned address, and how the allocator of
  glibc places an aligned block in the chunk it has found. Both calls require an
  alignment that is a power of two. For such an alignment the result is the first
  multiple of the alignment at or after \<open>p\<close>; for another alignment it is not a
  multiple of it in general. Addresses are natural numbers, and sums of addresses are
  taken where they do not wrap around.

  \<open>std::align(alignment, size, ptr, space)\<close>: a null pointer when \<open>size\<close> bytes do
  not fit into \<open>space\<close>, or not after the aligned address; else the aligned address
  and the space that is left.

  \<open>aligned_alloc(alignment, size)\<close>: \<open>NULL\<close> when there is no chunk, else the
  aligned address in the chunk.

  The expression \<open>new T[n]\<close> throws \<open>std::bad_array_new_length\<close>, which is a
  \<open>std::bad_alloc\<close>, when the number of bytes is not a \<open>std::size_t\<close>, and calls
  \<open>operator new[]\<close> otherwise.
\<close>

definition align_up :: "nat \<Rightarrow> addr \<Rightarrow> addr" where
  "align_up alignment p = nat ((int p - 1 + int alignment) AND (- int alignment))"

definition std_align :: "nat \<Rightarrow> nat \<Rightarrow> addr \<Rightarrow> nat \<Rightarrow> (addr \<times> nat) option" where
  "std_align alignment sz ptr space =
     (if space < sz then None
      else
        let aligned = align_up alignment ptr;
            diff = aligned - ptr
        in if space - sz < diff then None else Some (aligned, space - diff))"

definition aligned_alloc :: "platform \<Rightarrow> heap \<Rightarrow> nat \<Rightarrow> nat \<Rightarrow> addr" where
  "aligned_alloc pf h alignment sz =
     (let m = chunk pf h alignment sz in if m = 0 then 0 else align_up alignment m)"

definition new_array :: "platform \<Rightarrow> heap \<Rightarrow> nat \<Rightarrow> addr option" where
  "new_array pf h n =
     (if 2 ^ ptrdiff_bits pf \<le> n * sizeof_T pf then None else operator_new pf h (n * sizeof_T pf))"

definition request :: "heap \<Rightarrow> heap" where
  "request h = h\<lparr>requests := Suc (requests h)\<rparr>"

definition allocate :: "heap \<Rightarrow> addr \<Rightarrow> nat \<Rightarrow> heap" where
  "allocate h p n = h\<lparr>live := (live h)(p \<mapsto> n)\<rparr>"

text \<open>The branch \<open>#ifdef __GNUC__\<close> of the constructor.\<close>

definition simd_vector_gnuc :: "platform \<Rightarrow> heap \<Rightarrow> nat \<Rightarrow> (exn + simd_vector) \<times> heap" where
  "simd_vector_gnuc pf h s =
     (let k = sizeof_S pf div sizeof_T pf;
          rc = rounded_count pf s k;
          bytes = to_size_t pf (rc * sizeof_T pf);
          raw_pointer = aligned_alloc pf h (sizeof_S pf) bytes
      in if raw_pointer = 0 then (Inl alignment_exception, request h)
         else (Inr \<lparr>vec_k = int k, raw_block = raw_pointer, aligned_begin = raw_pointer,
                    aligned_end = raw_pointer + s * sizeof_T pf, content_size = s\<rparr>,
               allocate (request h) raw_pointer bytes))"

text \<open>The branch \<open>#else\<close>: over-allocation by \<open>k\<close> elements, then \<open>std::align\<close>.\<close>

definition simd_vector_other :: "platform \<Rightarrow> heap \<Rightarrow> nat \<Rightarrow> (exn + simd_vector) \<times> heap" where
  "simd_vector_other pf h s =
     (let k = sizeof_S pf div sizeof_T pf;
          rc = rounded_count pf s k;
          required_count = to_size_t pf (rc + k)
      in case new_array pf h required_count of
           None \<Rightarrow> (Inl bad_alloc, request h)
         | Some raw \<Rightarrow>
             (let h' = allocate (request h) raw (required_count * sizeof_T pf);
                  buffer_size = to_size_t pf (required_count * sizeof_T pf)
              in case std_align (sizeof_S pf) (to_size_t pf (rc * sizeof_T pf)) raw buffer_size of
                   None \<Rightarrow> (Inl alignment_exception, h')
                 | Some (tmp_begin, space) \<Rightarrow>
                     (Inr \<lparr>vec_k = int k, raw_block = raw, aligned_begin = tmp_begin,
                           aligned_end = tmp_begin + s * sizeof_T pf, content_size = s\<rparr>,
                      h')))"

definition simd_vector_ctor :: "platform \<Rightarrow> heap \<Rightarrow> nat \<Rightarrow> (exn + simd_vector) \<times> heap" where
  "simd_vector_ctor pf h s = (if gnuc pf then simd_vector_gnuc pf h s else simd_vector_other pf h s)"






text \<open>
  \<open>begin()\<close>, \<open>end()\<close> and \<open>size()\<close>. \<open>end()\<close> passes \<open>content_size\<close>, a
  \<open>std::size_t\<close>, to a constructor parameter of type \<open>difference_type\<close>, which is
  \<open>std::ptrdiff_t\<close>: the conversion keeps the low bits, read as two's complement.
\<close>

definition to_difference_type :: "platform \<Rightarrow> nat \<Rightarrow> int" where
  "to_difference_type pf n = signed_take_bit (ptrdiff_bits pf - 1) (int n)"

definition begin_it :: "simd_vector \<Rightarrow> simd_vector_iterator" where
  "begin_it v = \<lparr>base = aligned_begin v, offset = 0\<rparr>"

definition end_it :: "platform \<Rightarrow> simd_vector \<Rightarrow> simd_vector_iterator" where
  "end_it pf v = \<lparr>base = aligned_begin v, offset = to_difference_type pf (content_size v)\<rparr>"

definition simd_vector_size :: "simd_vector \<Rightarrow> nat" where
  "simd_vector_size v = content_size v"


text \<open>
  Platforms for the concrete instances below. \<open>gcc64\<close> and \<open>msvc64\<close> instantiate
  \<open>simd_vector<float, __m128>\<close> (\<open>k = 4\<close>) under the two branches of the
  constructor; \<open>gcc64_exhausted\<close> is \<open>gcc64\<close> without memory; \<open>gcc64_bytes\<close> and
  \<open>gcc32_bytes\<close> instantiate \<open>simd_vector<uint8_t, uint32_t>\<close> with a
  \<open>std::ptrdiff_t\<close> of 64 and of 32 bits; \<open>gcc64_s2\<close> and \<open>msvc64_s2\<close> instantiate
  \<open>simd_vector<uint32_t, s2>\<close> with the structure \<open>s2\<close> of 12 bytes of
  \<open>du1test.cpp\<close>, which the static assertion admits.
\<close>

definition empty_heap :: heap where
  "empty_heap = \<lparr>live = Map.empty, released = [], requests = 0\<rparr>"

definition gcc64 :: platform where
  "gcc64 = \<lparr>gnuc = True, sizeof_T = 4, sizeof_S = 16, ptrdiff_bits = 64,
     chunk = (\<lambda>h a n. 1024), operator_new = (\<lambda>h n. None)\<rparr>"

definition gcc64_exhausted :: platform where
  "gcc64_exhausted = \<lparr>gnuc = True, sizeof_T = 4, sizeof_S = 16, ptrdiff_bits = 64,
     chunk = (\<lambda>h a n. 0), operator_new = (\<lambda>h n. None)\<rparr>"

definition msvc64 :: platform where
  "msvc64 = \<lparr>gnuc = False, sizeof_T = 4, sizeof_S = 16, ptrdiff_bits = 64,
     chunk = (\<lambda>h a n. 0), operator_new = (\<lambda>h n. Some 4100)\<rparr>"

definition gcc64_bytes :: platform where
  "gcc64_bytes = \<lparr>gnuc = True, sizeof_T = 1, sizeof_S = 4, ptrdiff_bits = 64,
     chunk = (\<lambda>h a n. 4096), operator_new = (\<lambda>h n. None)\<rparr>"

definition gcc32_bytes :: platform where
  "gcc32_bytes = \<lparr>gnuc = True, sizeof_T = 1, sizeof_S = 4, ptrdiff_bits = 32,
     chunk = (\<lambda>h a n. 4096), operator_new = (\<lambda>h n. None)\<rparr>"

definition gcc64_s2 :: platform where
  "gcc64_s2 = \<lparr>gnuc = True, sizeof_T = 4, sizeof_S = 12, ptrdiff_bits = 64,
     chunk = (\<lambda>h a n. 56), operator_new = (\<lambda>h n. None)\<rparr>"

definition msvc64_s2 :: platform where
  "msvc64_s2 = \<lparr>gnuc = False, sizeof_T = 4, sizeof_S = 12, ptrdiff_bits = 64,
     chunk = (\<lambda>h a n. 0), operator_new = (\<lambda>h n. Some 56)\<rparr>"

text \<open>The elements of a list from position \<open>i\<close> up to, and without, position \<open>j\<close>.\<close>

definition slice :: "'a list \<Rightarrow> nat \<Rightarrow> nat \<Rightarrow> 'a list" where
  "slice xs i j = take (j - i) (drop i xs)"

section \<open>Sums that do not round\<close>

text \<open>
  Book-keeping for the sums of \<open>float\<close> that are exact. A \<open>weighted\<close> value is an
  integer together with a weight, the sum of the magnitudes of the terms it was added
  up from; the two components add separately, which is a commutative monoid. A
  \<open>float\<close> is \<open>exact_as\<close> a weighted value at the scale \<open>j\<close> when, the weight being
  at most \<open>2 ^ 24\<close>, it is that integer times \<open>2 ^ (j - 149)\<close>: no addition on the way
  to it has rounded.
\<close>

datatype weighted = Weighted (val: int) (weight: nat)

instantiation weighted :: comm_monoid_add
begin

definition zero_weighted :: weighted where
  "zero_weighted = Weighted 0 0"

definition plus_weighted :: "weighted \<Rightarrow> weighted \<Rightarrow> weighted" where
  "plus_weighted x y = Weighted (val x + val y) (weight x + weight y)"

instance
  by standard (simp_all add: zero_weighted_def plus_weighted_def)

end

definition exact_as :: "nat \<Rightarrow> float \<Rightarrow> weighted \<Rightarrow> bool" where
  "exact_as j f x = (weight x \<le> 2 ^ 24 \<longrightarrow> f = scaled j (val x) \<and> \<bar>val x\<bar> \<le> int (weight x))"

definition weigh :: "int \<Rightarrow> weighted" where
  "weigh v = Weighted v (nat \<bar>v\<bar>)"

definition overweight :: weighted where
  "overweight = Weighted 0 (2 ^ 24 + 1)"

section \<open>Offsets of an iterator inside its lane\<close>

lemma sdiv_nonneg: "0 \<le> a \<Longrightarrow> 0 < k \<Longrightarrow> a sdiv k = a div (k::int)"
  by (simp add: signed_divide_int_def sgn_if)

lemma smod_nonneg: "0 \<le> a \<Longrightarrow> 0 < k \<Longrightarrow> a smod k = a mod (k::int)"
  by (simp add: signed_modulo_int_def sgn_if)

text \<open>
  C3, as amended. At a non-negative offset \<open>upper_offset\<close> is \<open>(offset % k) - (k - 1)\<close>,
  it lies between \<open>-(k - 1)\<close> and \<open>0\<close>, and it is \<open>0\<close> exactly when the position is the
  last element of its lane (\<open>offset % k = k - 1\<close>); on a lane boundary it is \<open>-(k - 1)\<close>.
\<close>

theorem upper_offset_range:
  assumes "0 \<le> offset it" and "0 < k"
  shows "upper_offset k it = (offset it mod k) - (k - 1)
    \<and> - (k - 1) \<le> upper_offset k it \<and> upper_offset k it \<le> 0
    \<and> (upper_offset k it = 0 \<longleftrightarrow> offset it mod k = k - 1)
    \<and> (k dvd offset it \<longleftrightarrow> upper_offset k it = - (k - 1))"
proof -
  have eq: "upper_offset k it = (offset it mod k) - (k - 1)"
    using assms by (simp add: upper_offset_def smod_nonneg)
  have lo: "0 \<le> offset it mod k" and hi: "offset it mod k < k"
    using assms by simp_all
  have bd: "k dvd offset it \<longleftrightarrow> offset it mod k = 0"
    by (simp add: dvd_eq_mod_eq_0)
  show ?thesis
    using eq lo hi bd by auto
qed

theorem upper_offset_range_witness:
  "upper_offset 4 \<lparr>base = 64, offset = 7\<rparr> = 0
   \<and> upper_offset 4 \<lparr>base = 64, offset = 8\<rparr> = - 3"
  using upper_offset_range [of "\<lparr>base = 64, offset = 7\<rparr>" 4]
    upper_offset_range [of "\<lparr>base = 64, offset = 8\<rparr>" 4]
  by simp

text \<open>
  C3 as stated fails: at offset \<open>8\<close> with \<open>k = 4\<close> the position is on a lane boundary
  and \<open>upper_offset\<close> is \<open>-3\<close>, not \<open>0\<close>.
\<close>

theorem upper_offset_boundary_counterexample:
  "\<not> ((upper_offset 4 \<lparr>base = 64, offset = 8\<rparr> = 0) \<longleftrightarrow> (4 dvd offset \<lparr>base = 64, offset = 8\<rparr>))"
  by (simp add: upper_offset_def signed_modulo_int_def)

section \<open>Lane masks and lane sums\<close>

text \<open>
  For \<open>k = 4\<close> the masks are the tables of \<open>simd<float, __m128>::mask_data\<close>, and for
  \<open>k = 1\<close> the masking functions are those of \<open>simd<float, float>\<close>.
\<close>

lemma lmask_table:
  "lmask 4 0 = [True, True, True, True]"
  "lmask 4 1 = [False, True, True, True]"
  "lmask 4 2 = [False, False, True, True]"
  "lmask 4 3 = [False, False, False, True]"
  by (simp_all add: lmask_def upt_rec)

lemma umask_table:
  "umask 4 0 = [True, False, False, False]"
  "umask 4 1 = [True, True, False, False]"
  "umask 4 2 = [True, True, True, False]"
  "umask 4 3 = [True, True, True, True]"
  by (simp_all add: umask_def upt_rec)

lemma masks_of_float_float:
  "mask_lower 1 [x] 0 = Inr [x]"
  "mask_upper 1 [x] 0 = Inr [x]"
  "mask_both 1 [x] 0 0 = Inr [x]"
  "g \<noteq> 0 \<Longrightarrow> mask_lower 1 [x] g = Inl AssertionFailed"
  "g \<noteq> 0 \<Longrightarrow> mask_upper 1 [x] g = Inl AssertionFailed"
  by (auto simp add: mask_lower_def mask_upper_def mask_both_def lmask_def umask_def and_ps_def)

lemma simd_hsum_sum_list:
  fixes a :: "'a::comm_monoid_add list"
  shows "simd_hsum a = sum_list a"
  by (induction a rule: simd_hsum.induct) (simp_all add: ac_simps sum_list.eq_foldr)

lemma sum_list_replicate_zero: "sum_list (replicate n (0::'a::comm_monoid_add)) = 0"
  by (induction n) simp_all

lemma length_simd_add: "length (simd_add a b) = min (length a) (length b)"
  by (simp add: simd_add_def)

lemma sum_list_simd_add:
  fixes a b :: "'a::comm_monoid_add list"
  shows "length a = length b \<Longrightarrow> sum_list (simd_add a b) = sum_list a + sum_list b"
  by (induction a b rule: list_induct2) (simp_all add: simd_add_def ac_simps)

lemma and_ps_lmask:
  assumes "length a = c" and "g \<le> c"
  shows "and_ps a (lmask (int c) (int g)) = replicate g 0 @ drop g a"
proof (rule nth_equalityI)
  show "length (and_ps a (lmask (int c) (int g))) = length (replicate g 0 @ drop g a)"
    using assms by (simp add: and_ps_def lmask_def)
next
  fix i assume "i < length (and_ps a (lmask (int c) (int g)))"
  then have i: "i < c" using assms by (simp add: and_ps_def lmask_def)
  then show "and_ps a (lmask (int c) (int g)) ! i = (replicate g 0 @ drop g a) ! i"
    using assms by (simp add: and_ps_def lmask_def nth_append)
qed

lemma and_ps_umask:
  assumes "length a = c" and "j < c"
  shows "and_ps a (umask (int c) (int j)) = take (Suc j) a @ replicate (c - Suc j) 0"
proof (rule nth_equalityI)
  show "length (and_ps a (umask (int c) (int j))) = length (take (Suc j) a @ replicate (c - Suc j) 0)"
    using assms by (simp add: and_ps_def umask_def)
next
  fix i assume "i < length (and_ps a (umask (int c) (int j)))"
  then have i: "i < c" using assms by (simp add: and_ps_def umask_def)
  then show "and_ps a (umask (int c) (int j)) ! i = (take (Suc j) a @ replicate (c - Suc j) 0) ! i"
    using assms by (auto simp add: and_ps_def umask_def nth_append)
qed

lemma sum_list_lmask:
  fixes a :: "'a::comm_monoid_add list"
  shows "length a = c \<Longrightarrow> g \<le> c \<Longrightarrow> sum_list (and_ps a (lmask (int c) (int g))) = sum_list (drop g a)"
  by (simp add: and_ps_lmask sum_list_replicate_zero)

lemma sum_list_umask:
  fixes a :: "'a::comm_monoid_add list"
  shows "length a = c \<Longrightarrow> j < c \<Longrightarrow> sum_list (and_ps a (umask (int c) (int j))) = sum_list (take (Suc j) a)"
  by (simp add: and_ps_umask sum_list_replicate_zero)

lemma sum_list_both:
  fixes a :: "'a::comm_monoid_add list"
  assumes "length a = c" and "g \<le> j" and "j < c"
  shows "sum_list (and_ps (and_ps a (lmask (int c) (int g))) (umask (int c) (int j)))
     = sum_list (take (Suc j - g) (drop g a))"
proof -
  have len: "length (and_ps a (lmask (int c) (int g))) = c"
    using assms by (simp add: and_ps_def lmask_def)
  have "sum_list (and_ps (and_ps a (lmask (int c) (int g))) (umask (int c) (int j)))
      = sum_list (take (Suc j) (replicate g 0 @ drop g a))"
    using assms len by (simp add: sum_list_umask and_ps_lmask)
  also have "\<dots> = sum_list (take (Suc j - g) (drop g a))"
    using assms by (simp add: sum_list_replicate_zero min_def)
  finally show ?thesis .
qed


section \<open>The two folds at natural-number positions\<close>

lemma deref_nat:
  "base it = start r \<Longrightarrow> offset it = int p \<Longrightarrow>
   deref r it = (if p < length (elems r) then Inr (elems r ! p) else Inl OutOfBounds)"
  by (simp add: deref_def)

lemma simd_deref_nat:
  assumes "simd_base it = start r" and "simd_offset it = int i" and "0 < c"
  shows "simd_deref (int c) r it =
    (if Suc i * c \<le> length (elems r) then Inr (take c (drop (i * c) (elems r))) else Inl OutOfBounds)"
proof -
  have "(int i + 1) * int c \<le> int (length (elems r)) \<longleftrightarrow> Suc i * c \<le> length (elems r)"
    by (metis of_nat_Suc of_nat_le_iff of_nat_mult add.commute)
  moreover have "nat (int i * int c) = i * c"
    by (simp add: nat_mult_distrib)
  ultimately show ?thesis
    using assms by (simp add: simd_deref_def)
qed

lemma take_Suc_drop:
  "p < length xs \<Longrightarrow> take (Suc m) (drop p xs) = xs ! p # take m (drop (Suc p) xs)"
  by (simp add: Cons_nth_drop_Suc [symmetric])

lemma tester_sum_loop_nat:
  fixes r :: "'a::comm_monoid_add region"
  assumes "base e = start r" and "offset e = int q"
  shows "base b = start r \<Longrightarrow> offset b = int p \<Longrightarrow> p \<le> q \<Longrightarrow> m = q - p \<Longrightarrow>
    tester_sum_loop r b e acc =
      (if q \<le> length (elems r) \<or> p = q
       then Inr (acc + sum_list (take (q - p) (drop p (elems r))))
       else Inl OutOfBounds)"
proof (induction m arbitrary: b p acc)
  case 0
  then have "p = q" by simp
  with 0 assms have "\<not> it_ne b e" by (simp add: it_ne_def)
  with \<open>p = q\<close> show ?case by simp
next
  case (Suc m)
  then have pq: "p < q" by simp
  with Suc assms have ne: "it_ne b e" by (simp add: it_ne_def)
  show ?case
  proof (cases "p < length (elems r)")
    case False
    with Suc.prems have "deref r b = Inl OutOfBounds" by (simp add: deref_nat)
    with ne False pq show ?thesis by simp
  next
    case True
    with Suc.prems have d: "deref r b = Inr (elems r ! p)" by (simp add: deref_nat)
    have ih: "tester_sum_loop r (it_inc b) e (acc + elems r ! p) =
      (if q \<le> length (elems r) \<or> Suc p = q
       then Inr ((acc + elems r ! p) + sum_list (take (q - Suc p) (drop (Suc p) (elems r))))
       else Inl OutOfBounds)"
      using Suc.prems pq by (intro Suc.IH) (simp_all add: it_inc_def)
    have q: "q - p = Suc (q - Suc p)" using pq by simp
    have "Suc p = q \<Longrightarrow> q \<le> length (elems r)" using True by simp
    then show ?thesis
      using ne d ih pq True by (auto simp add: q take_Suc_drop add.assoc)
  qed
qed

lemma simd_sum_loop_stops:
  "simd_sum_loop k r bb ee acc = Inl OutOfBounds
   \<or> (\<exists>acc'. simd_sum_loop k r bb ee acc = Inr (ee, acc'))"
proof (induction k r bb ee acc rule: simd_sum_loop.induct)
  case (1 k r bb ee acc)
  show ?case
  proof (cases "simd_ne bb ee")
    case False
    then have "bb = ee" by (simp add: simd_ne_def)
    with False show ?thesis by simp
  next
    case True
    show ?thesis
    proof (cases "simd_deref k r bb")
      case (Inl f)
      then have "f = OutOfBounds" by (simp add: simd_deref_def split: if_splits)
      with True Inl show ?thesis by simp
    next
      case (Inr x)
      with True 1 show ?thesis by simp
    qed
  qed
qed

lemma simd_sum_loop_nat:
  fixes r :: "'a::comm_monoid_add region"
  assumes "simd_base ee = start r" and "simd_offset ee = int j" and "0 < c"
    and "j * c \<le> length (elems r)"
  shows "simd_base bb = start r \<Longrightarrow> simd_offset bb = int i \<Longrightarrow> i \<le> j \<Longrightarrow> m = j - i \<Longrightarrow>
    length acc = c \<Longrightarrow>
    \<exists>acc'. simd_sum_loop (int c) r bb ee acc = Inr (ee, acc') \<and> length acc' = c
      \<and> sum_list acc' = sum_list acc + sum_list (take (j * c - i * c) (drop (i * c) (elems r)))"
proof (induction m arbitrary: bb i acc)
  case 0
  then have "i = j" by simp
  with 0 assms have "\<not> simd_ne bb ee" and "bb = ee" by (simp_all add: simd_ne_def)
  with \<open>i = j\<close> 0 show ?case by simp
next
  case (Suc m)
  then have ij: "i < j" by simp
  with Suc assms have ne: "simd_ne bb ee" by (simp add: simd_ne_def)
  have "Suc i * c \<le> j * c" using ij by (simp add: Suc_leI mult_le_mono1 del: mult_Suc)
  with assms have inb: "Suc i * c \<le> length (elems r)" by simp
  let ?x = "take c (drop (i * c) (elems r))"
  have d: "simd_deref (int c) r bb = Inr ?x"
    using Suc.prems assms inb by (simp add: simd_deref_nat del: mult_Suc)
  have lx: "length ?x = c" using inb by simp
  have "\<exists>acc'. simd_sum_loop (int c) r (simd_inc bb) ee (simd_add acc ?x) = Inr (ee, acc') \<and> length acc' = c
      \<and> sum_list acc' = sum_list (simd_add acc ?x)
          + sum_list (take (j * c - Suc i * c) (drop (Suc i * c) (elems r)))"
    using Suc.prems ij lx by (intro Suc.IH) (simp_all add: simd_inc_def length_simd_add)
  then obtain acc' where a: "simd_sum_loop (int c) r (simd_inc bb) ee (simd_add acc ?x) = Inr (ee, acc')"
    and la: "length acc' = c"
    and sa: "sum_list acc' = sum_list (simd_add acc ?x)
          + sum_list (take (j * c - Suc i * c) (drop (Suc i * c) (elems r)))"
    by blast
  have split: "take (j * c - i * c) (drop (i * c) (elems r))
      = ?x @ take (j * c - Suc i * c) (drop (Suc i * c) (elems r))"
  proof -
    have "j * c - i * c = c + (j * c - Suc i * c)"
      using \<open>Suc i * c \<le> j * c\<close> by simp
    then show ?thesis
      by (simp add: take_add add.commute)
  qed
  have "simd_sum_loop (int c) r bb ee acc = Inr (ee, acc')"
    using ne d a by simp
  moreover have "sum_list acc' = sum_list acc + sum_list (take (j * c - i * c) (drop (i * c) (elems r)))"
    using sa Suc.prems lx by (simp add: split sum_list_simd_add add.assoc)
  ultimately show ?case using la by blast
qed


section \<open>Slices of the region\<close>

lemma slice_append:
  assumes "i \<le> j" and "j \<le> l"
  shows "slice xs i j @ slice xs j l = slice xs i l"
proof -
  have "take (l - i) (drop i xs) = take ((j - i) + (l - j)) (drop i xs)"
    using assms by simp
  also have "\<dots> = take (j - i) (drop i xs) @ take (l - j) (drop (j - i) (drop i xs))"
    by (rule take_add)
  also have "drop (j - i) (drop i xs) = drop j xs"
    using assms by simp
  finally show ?thesis
    by (simp add: slice_def)
qed

lemma sum_list_slice_append:
  fixes xs :: "'a::comm_monoid_add list"
  assumes "i \<le> j" and "j \<le> l"
  shows "sum_list (slice xs i j) + sum_list (slice xs j l) = sum_list (slice xs i l)"
proof -
  have "sum_list (slice xs i j @ slice xs j l) = sum_list (slice xs i l)"
    using assms by (simp only: slice_append)
  then show ?thesis by simp
qed

lemma lane_drop: "g \<le> c \<Longrightarrow> drop g (take c (drop (i * c) xs)) = slice xs (i * c + g) (Suc i * c)"
  by (simp add: slice_def drop_take add.commute)

lemma lane_take: "t \<le> c \<Longrightarrow> take t (take c (drop (i * c) xs)) = slice xs (i * c) (i * c + t)"
  by (simp add: slice_def min_def)

lemma lane_both:
  "g \<le> t \<Longrightarrow> t \<le> c \<Longrightarrow> take (t - g) (drop g (take c (drop (i * c) xs))) = slice xs (i * c + g) (i * c + t)"
  by (simp add: slice_def drop_take min_def add.commute)

lemma lower_block_nat:
  "offset b = int p \<Longrightarrow> 0 < c \<Longrightarrow>
   lower_block (int c) b = \<lparr>simd_base = base b, simd_offset = int (p div c)\<rparr>"
  by (simp add: lower_block_def sdiv_nonneg zdiv_int)

lemma upper_block_nat:
  "offset e = int q \<Longrightarrow> 0 < c \<Longrightarrow>
   upper_block (int c) e = \<lparr>simd_base = base e, simd_offset = int (q div c) + 1\<rparr>"
  by (simp add: upper_block_def sdiv_nonneg zdiv_int)

lemma lower_offset_nat:
  "offset b = int p \<Longrightarrow> 0 < c \<Longrightarrow> lower_offset (int c) b = int (p mod c)"
  by (simp add: lower_offset_def smod_nonneg zmod_int)

lemma upper_offset_nat:
  "offset e = int q \<Longrightarrow> 0 < c \<Longrightarrow> upper_offset (int c) e = int (q mod c) - (int c - 1)"
  by (simp add: upper_offset_def smod_nonneg zmod_int)

lemma mask_lower_nat:
  "g < c \<Longrightarrow> mask_lower (int c) a (int g) = Inr (and_ps a (lmask (int c) (int g)))"
  by (simp add: mask_lower_def)

lemma mask_upper_nat:
  "t < c \<Longrightarrow> mask_upper (int c) a (int t - (int c - 1)) = Inr (and_ps a (umask (int c) (int t)))"
  by (simp add: mask_upper_def)

lemma length_and_ps_lmask: "length a = c \<Longrightarrow> length (and_ps a (lmask (int c) g)) = c"
  by (simp add: and_ps_def lmask_def)

lemma length_and_ps_umask: "length a = c \<Longrightarrow> length (and_ps a (umask (int c) g)) = c"
  by (simp add: and_ps_def umask_def)


section \<open>What \<open>simd_sum\<close> folds\<close>

lemma lane_fits:
  assumes "0 < c" and "c dvd n" and "q < n"
  shows "Suc (q div c) * c \<le> n"
proof -
  from assms(2) obtain m where "n = c * m" ..
  then have n: "n = m * c"
    by (simp add: mult.commute)
  have "q div c < m"
    using assms n by (simp add: div_less_iff_less_mult)
  then have "Suc (q div c) * c \<le> m * c"
    by (intro mult_le_mono1) simp
  with n show ?thesis by simp
qed

lemma lane_misses:
  assumes "0 < c" and "c dvd n" and "n \<le> q"
  shows "\<not> Suc (q div c) * c \<le> n"
proof -
  from assms(2) obtain m where "n = c * m" ..
  then have n: "n = m * c"
    by (simp add: mult.commute)
  have "m * c div c \<le> q div c"
    using assms n by (intro div_le_mono) simp
  then have "m \<le> q div c"
    using assms by simp
  then have a: "Suc m * c \<le> Suc (q div c) * c"
    by (intro mult_le_mono1) simp
  have b: "n < Suc m * c"
    using assms n by simp
  from b a have "n < Suc (q div c) * c"
    by (rule less_le_trans)
  then show ?thesis
    by (simp only: not_le)
qed

lemma tester_simd_sum_inside:
  fixes r :: "'a::comm_monoid_add region"
  assumes bb: "base b = start r" and be: "base e = start r"
    and ob: "offset b = int p" and oe: "offset e = int q"
    and pq: "p \<le> q" and c: "0 < c" and dv: "c dvd length (elems r)"
    and qn: "q < length (elems r)"
  shows "tester_simd_sum (int c) r b e = Inr (sum_list (slice (elems r) p (Suc q)))"
proof -
  let ?E = "elems r"
  define i where "i = p div c"
  define j where "j = q div c"
  define g where "g = p mod c"
  define t where "t = q mod c"
  let ?bi = "\<lparr>simd_base = start r, simd_offset = int i\<rparr>"
  let ?bj = "\<lparr>simd_base = start r, simd_offset = int j\<rparr>"
  have p: "p = i * c + g" and q: "q = j * c + t"
    by (simp_all add: i_def j_def g_def t_def)
  have g: "g < c" and t: "t < c"
    using c by (simp_all add: g_def t_def)
  have ij: "i \<le> j"
    unfolding i_def j_def using pq by (rule div_le_mono)
  have fits: "Suc j * c \<le> length ?E"
    unfolding j_def using c dv qn by (rule lane_fits)
  have lb: "lower_block (int c) b = ?bi"
    using ob c bb by (simp add: lower_block_nat i_def)
  have ub: "upper_block (int c) e = \<lparr>simd_base = start r, simd_offset = int j + 1\<rparr>"
    using oe c be by (simp add: upper_block_nat j_def)
  have lo: "lower_offset (int c) b = int g"
    using ob c by (simp add: lower_offset_nat g_def)
  have uo: "upper_offset (int c) e = int t - (int c - 1)"
    using oe c by (simp add: upper_offset_nat t_def)
  have dec: "simd_dec \<lparr>simd_base = start r, simd_offset = int j + 1\<rparr> = ?bj"
    by (simp add: simd_dec_def)
  let ?a' = "take c (drop (j * c) ?E)"
  have d2: "simd_deref (int c) r ?bj = Inr ?a'"
    using fits c by (simp add: simd_deref_nat del: mult_Suc)
  have la': "length ?a' = c"
    using fits by simp
  show ?thesis
  proof (cases "i = j")
    case True
    have gt: "g \<le> t"
      using pq p q True by simp
    have mb: "mask_both (int c) ?a' (int g) (int t - (int c - 1))
        = Inr (and_ps (and_ps ?a' (lmask (int c) (int g))) (umask (int c) (int t)))"
      using g t by (simp add: mask_both_def mask_lower_nat mask_upper_nat)
    have "sum_list (and_ps (and_ps ?a' (lmask (int c) (int g))) (umask (int c) (int t)))
        = sum_list (take (Suc t - g) (drop g ?a'))"
      using la' gt t by (rule sum_list_both)
    also have "take (Suc t - g) (drop g ?a') = slice ?E (j * c + g) (j * c + Suc t)"
      using gt t by (intro lane_both) simp_all
    finally have s: "sum_list (and_ps (and_ps ?a' (lmask (int c) (int g))) (umask (int c) (int t)))
        = sum_list (slice ?E p (Suc q))"
      using p q True by simp
    show ?thesis
      using True d2 mb s
      by (simp add: tester_simd_sum_def Let_def lb ub dec simd_eq_def lo uo simd_hsum_sum_list)
  next
    case False
    then have lt: "i < j"
      using ij by simp
    then have si: "Suc i * c \<le> j * c"
      by (intro mult_le_mono1) simp
    let ?a = "take c (drop (i * c) ?E)"
    have fi: "Suc i * c \<le> length ?E"
      using si fits by simp
    have d1: "simd_deref (int c) r ?bi = Inr ?a"
      using fi c by (simp add: simd_deref_nat del: mult_Suc)
    have la: "length ?a = c"
      using fi by simp
    let ?acc = "and_ps ?a (lmask (int c) (int g))"
    have ml: "mask_lower (int c) ?a (int g) = Inr ?acc"
      using g by (rule mask_lower_nat)
    have lacc: "length ?acc = c"
      using la by (rule length_and_ps_lmask)
    have "sum_list ?acc = sum_list (drop g ?a)"
      using la g by (intro sum_list_lmask) simp_all
    also have "drop g ?a = slice ?E (i * c + g) (Suc i * c)"
      using g by (intro lane_drop) simp
    finally have sacc: "sum_list ?acc = sum_list (slice ?E p (Suc i * c))"
      using p by simp
    have "\<exists>acc'. simd_sum_loop (int c) r (simd_inc ?bi) ?bj ?acc = Inr (?bj, acc') \<and> length acc' = c
        \<and> sum_list acc' = sum_list ?acc
            + sum_list (take (j * c - Suc i * c) (drop (Suc i * c) ?E))"
    proof (rule simd_sum_loop_nat [where i = "Suc i" and j = j and m = "j - Suc i"])
      show "j * c \<le> length ?E" using fits by simp
      show "simd_offset (simd_inc ?bi) = int (Suc i)" by (simp add: simd_inc_def)
      show "Suc i \<le> j" using lt by simp
    qed (use c lacc in \<open>simp_all add: simd_inc_def\<close>)
    then obtain acc' where lp: "simd_sum_loop (int c) r (simd_inc ?bi) ?bj ?acc = Inr (?bj, acc')"
      and lacc': "length acc' = c"
      and sacc': "sum_list acc' = sum_list ?acc + sum_list (slice ?E (Suc i * c) (j * c))"
      unfolding slice_def by blast
    let ?m = "and_ps ?a' (umask (int c) (int t))"
    have mu: "mask_upper (int c) ?a' (int t - (int c - 1)) = Inr ?m"
      using t by (rule mask_upper_nat)
    have lm: "length ?m = c"
      using la' by (rule length_and_ps_umask)
    have "sum_list ?m = sum_list (take (Suc t) ?a')"
      using la' t by (rule sum_list_umask)
    also have "take (Suc t) ?a' = slice ?E (j * c) (j * c + Suc t)"
      using t by (intro lane_take) simp
    finally have sm: "sum_list ?m = sum_list (slice ?E (j * c) (Suc q))"
      using q by simp
    have "sum_list (simd_add acc' ?m) = sum_list acc' + sum_list ?m"
      using lacc' lm by (intro sum_list_simd_add) simp
    also have "\<dots> = (sum_list (slice ?E p (Suc i * c)) + sum_list (slice ?E (Suc i * c) (j * c)))
        + sum_list (slice ?E (j * c) (Suc q))"
      by (simp only: sacc' sacc sm)
    also have "sum_list (slice ?E p (Suc i * c)) + sum_list (slice ?E (Suc i * c) (j * c))
        = sum_list (slice ?E p (j * c))"
      using p g si by (intro sum_list_slice_append) simp_all
    also have "sum_list (slice ?E p (j * c)) + sum_list (slice ?E (j * c) (Suc q))
        = sum_list (slice ?E p (Suc q))"
      using p g si q by (intro sum_list_slice_append) simp_all
    finally have total: "sum_list (simd_add acc' ?m) = sum_list (slice ?E p (Suc q))" .
    show ?thesis
      using False ij d1 ml lp d2 mu total
      by (simp add: tester_simd_sum_def Let_def lb ub dec simd_eq_def lo uo simd_hsum_sum_list)
  qed
qed


lemma tester_simd_sum_outside:
  fixes r :: "'a::{plus,zero} region"
  assumes bb: "base b = start r" and be: "base e = start r"
    and ob: "offset b = int p" and oe: "offset e = int q"
    and pq: "p \<le> q" and c: "0 < c" and dv: "c dvd length (elems r)"
    and qn: "length (elems r) \<le> q"
  shows "tester_simd_sum (int c) r b e = Inl OutOfBounds"
proof -
  let ?E = "elems r"
  define i where "i = p div c"
  define j where "j = q div c"
  define g where "g = p mod c"
  let ?bi = "\<lparr>simd_base = start r, simd_offset = int i\<rparr>"
  let ?bj = "\<lparr>simd_base = start r, simd_offset = int j\<rparr>"
  have g: "g < c"
    using c by (simp add: g_def)
  have ij: "i \<le> j"
    unfolding i_def j_def using pq by (rule div_le_mono)
  have miss: "\<not> Suc j * c \<le> length ?E"
    unfolding j_def using c dv qn by (rule lane_misses)
  have lb: "lower_block (int c) b = ?bi"
    using ob c bb by (simp add: lower_block_nat i_def)
  have ub: "upper_block (int c) e = \<lparr>simd_base = start r, simd_offset = int j + 1\<rparr>"
    using oe c be by (simp add: upper_block_nat j_def)
  have lo: "lower_offset (int c) b = int g"
    using ob c by (simp add: lower_offset_nat g_def)
  have dec: "simd_dec \<lparr>simd_base = start r, simd_offset = int j + 1\<rparr> = ?bj"
    by (simp add: simd_dec_def)
  have d2: "simd_deref (int c) r ?bj = Inl OutOfBounds"
    using miss c by (simp add: simd_deref_nat del: mult_Suc)
  show ?thesis
  proof (cases "i = j")
    case True
    then show ?thesis
      using d2 by (simp add: tester_simd_sum_def Let_def lb ub dec simd_eq_def)
  next
    case False
    let ?a = "take c (drop (i * c) ?E)"
    let ?acc = "and_ps ?a (lmask (int c) (int g))"
    have ml: "mask_lower (int c) ?a (int g) = Inr ?acc"
      using g by (rule mask_lower_nat)
    show ?thesis
    proof (cases "Suc i * c \<le> length ?E")
      case outside: False
      then have "simd_deref (int c) r ?bi = Inl OutOfBounds"
        using c by (simp add: simd_deref_nat del: mult_Suc)
      then show ?thesis
        using False ij by (simp add: tester_simd_sum_def Let_def lb ub dec simd_eq_def)
    next
      case True
      then have d1: "simd_deref (int c) r ?bi = Inr ?a"
        using c by (simp add: simd_deref_nat del: mult_Suc)
      consider (fault) "simd_sum_loop (int c) r (simd_inc ?bi) ?bj ?acc = Inl OutOfBounds"
        | (stop) acc' where "simd_sum_loop (int c) r (simd_inc ?bi) ?bj ?acc = Inr (?bj, acc')"
        using simd_sum_loop_stops [of "int c" r "simd_inc ?bi" ?bj ?acc] by blast
      then show ?thesis
      proof cases
        case fault
        then show ?thesis
          using False ij d1 ml
          by (simp add: tester_simd_sum_def Let_def lb ub dec simd_eq_def lo)
      next
        case stop
        then show ?thesis
          using False ij d1 ml d2
          by (simp add: tester_simd_sum_def Let_def lb ub dec simd_eq_def lo)
      qed
    qed
  qed
qed

lemma tester_sum_next:
  fixes r :: "'a::comm_monoid_add region"
  assumes "base b = start r" and "base e = start r"
    and "offset b = int p" and "offset e = int q" and "p \<le> q"
  shows "tester_sum r b (it_inc e) =
    (if q < length (elems r) then Inr (sum_list (slice (elems r) p (Suc q))) else Inl OutOfBounds)"
proof -
  have "tester_sum_loop r b (it_inc e) 0 =
      (if Suc q \<le> length (elems r) \<or> p = Suc q
       then Inr (0 + sum_list (take (Suc q - p) (drop p (elems r))))
       else Inl OutOfBounds)"
    using assms by (intro tester_sum_loop_nat [where m = "Suc q - p"]) (simp_all add: it_inc_def)
  then show ?thesis
    using assms by (simp add: tester_sum_def slice_def Suc_le_eq)
qed

text \<open>
  Where the addition of the elements is exact, a commutative monoid: for iterators
  \<open>b\<close> and \<open>e\<close> over the region with \<open>b\<close> not after \<open>e\<close>, \<open>simd_sum(b, e)\<close> is the
  plain fold \<open>sum(b, e + 1)\<close>. Both sides are the same fault when the element at \<open>e\<close>
  is outside the region, and the value is the sum of the elements at the offsets
  \<open>b, ..., e\<close> when it is inside.
\<close>

lemma simd_sum_through_end_exact:
  fixes r :: "'a::comm_monoid_add region"
  assumes "base b = start r" and "base e = start r"
    and "0 \<le> offset b" and "offset b \<le> offset e"
    and "0 < k" and "k dvd int (length (elems r))"
  shows "tester_simd_sum k r b e = tester_sum r b (it_inc e)
    \<and> (offset e < int (length (elems r)) \<longrightarrow>
         tester_simd_sum k r b e
           = Inr (sum_list (take (nat (offset e + 1 - offset b)) (drop (nat (offset b)) (elems r)))))"
proof -
  obtain p q c where ob: "offset b = int p" and oe: "offset e = int q" and k: "k = int c"
    using assms by (metis nat_0_le order_trans less_imp_le)
  have pq: "p \<le> q" and c: "0 < c" and dv: "c dvd length (elems r)"
    using assms ob oe k by simp_all
  have next_sum: "tester_sum r b (it_inc e) =
    (if q < length (elems r) then Inr (sum_list (slice (elems r) p (Suc q))) else Inl OutOfBounds)"
    using assms(1,2) ob oe pq by (rule tester_sum_next)
  have sl: "take (nat (offset e + 1 - offset b)) (drop (nat (offset b)) (elems r))
      = slice (elems r) p (Suc q)"
    using ob oe pq by (simp add: slice_def nat_diff_distrib Suc_diff_le nat_add_distrib)
  show ?thesis
  proof (cases "q < length (elems r)")
    case True
    have "tester_simd_sum (int c) r b e = Inr (sum_list (slice (elems r) p (Suc q)))"
      using assms(1,2) ob oe pq c dv True by (rule tester_simd_sum_inside)
    then show ?thesis
      using True next_sum k sl by simp
  next
    case False
    then have "length (elems r) \<le> q" by simp
    with assms(1,2) ob oe pq c dv have "tester_simd_sum (int c) r b e = Inl OutOfBounds"
      by (rule tester_simd_sum_outside)
    then show ?thesis
      using False next_sum k oe by simp
  qed
qed

section \<open>Sums of \<open>float\<close> that do not round\<close>

text \<open>
  A number of at most 24 significant bits below the overflow threshold is a \<open>float\<close>,
  so adding two multiples of one power of two whose magnitudes sum to at most \<open>2 ^ 24\<close>
  times that power does not round. Every operation of the two reductions keeps the
  relation \<open>exact_as\<close> between a run on floats and the run on the weighted values of
  the same elements.
\<close>

lemma bit_length_double: "0 < n \<Longrightarrow> bit_length (2 * n) = Suc (bit_length n)"
  by (subst bit_length.simps) simp

lemma bit_length_shift: "0 < n \<Longrightarrow> bit_length (n * 2 ^ j) = bit_length n + j"
proof (induction j)
  case 0
  show ?case by simp
next
  case (Suc j)
  have "n * 2 ^ Suc j = 2 * (n * 2 ^ j)" by simp
  moreover have "0 < n * 2 ^ j" using Suc.prems by simp
  ultimately have "bit_length (n * 2 ^ Suc j) = Suc (bit_length (n * 2 ^ j))"
    by (simp only: bit_length_double)
  then show ?case using Suc by simp
qed

lemma bit_length_le: "n < 2 ^ k \<Longrightarrow> bit_length n \<le> k"
proof (induction k arbitrary: n)
  case 0
  then show ?case by (subst bit_length.simps) simp
next
  case (Suc k)
  show ?case
  proof (cases "n \<le> 0")
    case True
    then show ?thesis by (subst bit_length.simps) simp
  next
    case False
    have "n div 2 < 2 ^ k" using Suc.prems by simp
    then have "bit_length (n div 2) \<le> k" by (rule Suc.IH)
    with False show ?thesis by (subst bit_length.simps) simp
  qed
qed

lemma bit_length_gt: "2 ^ k \<le> n \<Longrightarrow> k < bit_length n"
proof (induction k arbitrary: n)
  case 0
  then show ?case by (subst bit_length.simps) simp
next
  case (Suc k)
  then have pos: "\<not> n \<le> 0"
    by (smt (verit) zero_less_power)
  have "2 ^ k \<le> n div 2" using Suc.prems by simp
  then have "k < bit_length (n div 2)" by (rule Suc.IH)
  with pos show ?case by (subst bit_length.simps) simp
qed

lemma round_float_small:
  assumes z: "\<bar>z\<bar> \<le> 2 ^ 24" and j: "j \<le> 252"
  shows "round_float (z * 2 ^ j) = Float (z * 2 ^ j)"
proof (cases "\<bar>z * 2 ^ j\<bar> < 2 ^ 24")
  case True
  then show ?thesis unfolding round_float_def Let_def by (simp only: if_True)
next
  case False
  define a where "a = \<bar>z\<bar> * 2 ^ j"
  define sh where "sh = bit_length a - 24"
  have az: "\<bar>z * 2 ^ j\<bar> = a"
    by (simp add: a_def abs_mult)
  have zpos: "0 < \<bar>z\<bar>"
    using False by auto
  have big: "2 ^ 24 \<le> a"
    using False az by simp
  have bl: "bit_length a = bit_length \<bar>z\<bar> + j"
    unfolding a_def using zpos by (rule bit_length_shift)
  have "24 < bit_length a"
    using big by (rule bit_length_gt)
  then have sh1: "0 < sh"
    by (simp add: sh_def)
  have dv: "2 ^ sh dvd a"
  proof (cases "\<bar>z\<bar> < 2 ^ 24")
    case True
    then have "bit_length \<bar>z\<bar> \<le> 24" by (rule bit_length_le)
    then have "sh \<le> j" by (simp add: sh_def bl)
    then have "(2::int) ^ sh dvd 2 ^ j" by (rule le_imp_power_dvd)
    then show ?thesis by (simp add: a_def)
  next
    case False
    with z have e: "\<bar>z\<bar> = 2 ^ 24" by simp
    have "\<bar>z\<bar> < 2 ^ 25" by (simp add: e)
    then have "bit_length \<bar>z\<bar> \<le> 25" by (rule bit_length_le)
    then have "sh \<le> 24 + j" by (simp add: sh_def bl)
    then have "(2::int) ^ sh dvd 2 ^ (24 + j)" by (rule le_imp_power_dvd)
    then show ?thesis by (simp add: a_def e power_add)
  qed
  have r: "a mod 2 ^ sh = 0"
    using dv by simp
  have q: "a div 2 ^ sh * 2 ^ sh = a"
    using dv by simp
  have half: "(0::int) < 2 ^ (sh - 1)"
    by simp
  have "a \<le> 2 ^ 24 * 2 ^ 252"
    unfolding a_def using z j by (intro mult_mono power_increasing) simp_all
  then have small: "\<not> 2 ^ 277 \<le> a"
    by simp
  have neg: "z * 2 ^ j < 0 \<Longrightarrow> - a = z * 2 ^ j"
    unfolding az [symmetric] by simp
  have pos: "\<not> z * 2 ^ j < 0 \<Longrightarrow> a = z * 2 ^ j"
    unfolding az [symmetric] by simp
  have m: "(if 2 ^ (sh - 1) < a mod 2 ^ sh \<or> (a mod 2 ^ sh = 2 ^ (sh - 1) \<and> odd (a div 2 ^ sh))
             then a div 2 ^ sh + 1 else a div 2 ^ sh) * 2 ^ sh = a"
    using r q half by simp
  have "round_float (z * 2 ^ j) =
      (if 2 ^ 277 \<le> a then Infinity (z * 2 ^ j < 0)
       else Float (if z * 2 ^ j < 0 then - a else a))"
    unfolding round_float_def Let_def az sh_def [symmetric] m using big by simp
  also have "\<dots> = Float (if z * 2 ^ j < 0 then - a else a)"
    using small by simp
  also have "\<dots> = Float (z * 2 ^ j)"
    using neg pos by (cases "z * 2 ^ j < 0") simp_all
  finally show ?thesis .
qed

lemma float_of_int_small: "\<bar>n\<bar> \<le> 2 ^ 24 \<Longrightarrow> float_of_int n = scaled 149 n"
  unfolding float_of_int_def scaled_def by (rule round_float_small) simp_all

text \<open>
  Above \<open>2 ^ 24\<close> the addition rounds: \<open>2 ^ 24 + 1\<close> is \<open>2 ^ 24\<close>, so the plain
  fold of \<open>2 ^ 24, 1, 1, 1\<close> is \<open>2 ^ 24\<close>, and \<open>2 ^ 24 + 3\<close> is \<open>2 ^ 24 + 4\<close>. The
  largest \<open>float\<close> is \<open>(2 ^ 24 - 1) * 2 ^ 104\<close>; half a step above it the sum is an
  infinity.
\<close>

lemma float_addition_rounds:
  "float_of_int 16777216 + float_of_int 1 = float_of_int 16777216"
  "float_of_int 16777216 + float_of_int 3 = float_of_int 16777220"
  "tester_sum \<lparr>start = 64, elems = map float_of_int [16777216, 1, 1, 1]\<rparr>
      \<lparr>base = 64, offset = 0\<rparr> \<lparr>base = 64, offset = 4\<rparr> = Inr (float_of_int 16777216)"
  "scaled 253 (2 ^ 24 - 1) + scaled 252 1 = Infinity False"
  "scaled 253 (2 ^ 24 - 1) + scaled 251 1 = scaled 253 (2 ^ 24 - 1)"
  "scaled 0 1 + scaled 0 1 = scaled 0 2"
  by code_simp+

lemma exact_as_zero: "exact_as j 0 0"
  by (simp add: exact_as_def zero_float_def zero_weighted_def scaled_def)

lemma exact_as_plus:
  assumes j: "j \<le> 252" and "exact_as j f x" and "exact_as j g y"
  shows "exact_as j (f + g) (x + y)"
proof (cases "weight x + weight y \<le> 2 ^ 24")
  case False
  then show ?thesis by (simp add: exact_as_def plus_weighted_def)
next
  case True
  then have wx: "weight x \<le> 2 ^ 24" and wy: "weight y \<le> 2 ^ 24" by simp_all
  from assms wx wy have f: "f = scaled j (val x)" and g: "g = scaled j (val y)"
    and bx: "\<bar>val x\<bar> \<le> int (weight x)" and by': "\<bar>val y\<bar> \<le> int (weight y)"
    by (simp_all add: exact_as_def)
  have b: "\<bar>val x + val y\<bar> \<le> int (weight x + weight y)"
    using bx by' by simp
  also have "\<dots> \<le> 2 ^ 24" using True by (metis of_nat_le_iff of_nat_numeral of_nat_power)
  finally have "round_float ((val x + val y) * 2 ^ j) = Float ((val x + val y) * 2 ^ j)"
    using j by (rule round_float_small)
  then have "scaled j (val x) + scaled j (val y) = scaled j (val x + val y)"
    by (simp add: scaled_def distrib_right)
  then show ?thesis
    using b by (simp add: exact_as_def plus_weighted_def f g)
qed

lemma exact_as_overweight: "exact_as j f overweight"
  by (simp add: exact_as_def overweight_def)

lemma exact_as_weigh: "exact_as j (scaled j v) (weigh v)"
  by (simp add: exact_as_def weigh_def)

lemma and_ps_exact:
  "list_all2 (exact_as j) a a' \<Longrightarrow> list_all2 (exact_as j) (and_ps a m) (and_ps a' m)"
  by (auto simp add: and_ps_def list_all2_conv_all_nth exact_as_zero)

lemma simd_add_exact:
  "j \<le> 252 \<Longrightarrow> list_all2 (exact_as j) a a' \<Longrightarrow> list_all2 (exact_as j) b b' \<Longrightarrow>
   list_all2 (exact_as j) (simd_add a b) (simd_add a' b')"
  by (auto simp add: simd_add_def list_all2_conv_all_nth exact_as_plus)

lemma foldr_exact:
  assumes j: "j \<le> 252"
  shows "list_all2 (exact_as j) a a' \<Longrightarrow> exact_as j (foldr (+) a 0) (foldr (+) a' 0)"
  by (induction rule: list_all2_induct) (simp_all add: exact_as_zero exact_as_plus [OF j])

lemma simd_hsum_exact:
  assumes j: "j \<le> 252" and aa: "list_all2 (exact_as j) a a'"
  shows "exact_as j (simd_hsum a) (simd_hsum a')"
proof (cases a rule: simd_hsum.cases)
  fix x assume "a = [x]"
  with aa show ?thesis by (auto simp add: list_all2_Cons1)
next
  fix a0 a1 a2 a3 assume "a = [a0, a1, a2, a3]"
  with aa show ?thesis by (auto simp add: list_all2_Cons1 intro!: exact_as_plus [OF j])
next
  assume "a = []"
  with aa show ?thesis by (simp add: exact_as_zero)
next
  fix v vb assume "a = [v, vb]"
  with aa foldr_exact [OF j aa] show ?thesis by (auto simp add: list_all2_Cons1)
next
  fix v vb va assume "a = [v, vb, va]"
  with aa foldr_exact [OF j aa] show ?thesis by (auto simp add: list_all2_Cons1)
next
  fix v vb va ve vg vh assume "a = v # vb # va # ve # vg # vh"
  with aa foldr_exact [OF j aa] show ?thesis by (auto simp add: list_all2_Cons1)
qed

lemma mask_lower_exact:
  "list_all2 (exact_as j) a a' \<Longrightarrow>
   rel_sum (=) (list_all2 (exact_as j)) (mask_lower k a g) (mask_lower k a' g)"
  by (simp add: mask_lower_def and_ps_exact)

lemma mask_upper_exact:
  "list_all2 (exact_as j) a a' \<Longrightarrow>
   rel_sum (=) (list_all2 (exact_as j)) (mask_upper k a g) (mask_upper k a' g)"
  by (simp add: mask_upper_def and_ps_exact)

lemma mask_both_exact:
  "list_all2 (exact_as j) a a' \<Longrightarrow>
   rel_sum (=) (list_all2 (exact_as j)) (mask_both k a g u) (mask_both k a' g u)"
  by (simp add: mask_both_def mask_lower_def mask_upper_exact and_ps_exact)

lemma deref_exact:
  "start r = start r' \<Longrightarrow> list_all2 (exact_as j) (elems r) (elems r') \<Longrightarrow>
   rel_sum (=) (exact_as j) (deref r it) (deref r' it)"
  by (auto simp add: deref_def list_all2_conv_all_nth)

lemma simd_deref_exact:
  "start r = start r' \<Longrightarrow> list_all2 (exact_as j) (elems r) (elems r') \<Longrightarrow>
   rel_sum (=) (list_all2 (exact_as j)) (simd_deref k r it) (simd_deref k r' it)"
  by (auto simp add: simd_deref_def list_all2_lengthD intro!: list_all2_takeI list_all2_dropI)

lemma bind_exact:
  assumes "rel_sum (=) A x x'"
    and "\<And>a a'. A a a' \<Longrightarrow> rel_sum (=) B (f a) (f' a')"
  shows "rel_sum (=) B (case x of Inl e \<Rightarrow> Inl e | Inr a \<Rightarrow> f a)
    (case x' of Inl e \<Rightarrow> Inl e | Inr a \<Rightarrow> f' a)"
  using assms by (cases x; cases x') simp_all

lemma tester_sum_loop_exact:
  fixes r :: "float region" and r' :: "weighted region"
  assumes j: "j \<le> 252"
  shows "start r = start r' \<Longrightarrow> list_all2 (exact_as j) (elems r) (elems r') \<Longrightarrow>
    exact_as j acc acc' \<Longrightarrow>
    rel_sum (=) (exact_as j) (tester_sum_loop r b e acc) (tester_sum_loop r' b e acc')"
proof (induction r b e acc arbitrary: acc' rule: tester_sum_loop.induct)
  case (1 r b e acc)
  note st = "1.prems"(1) and el = "1.prems"(2)
  show ?case
  proof (cases "it_ne b e")
    case False
    with 1 show ?thesis by simp
  next
    case True
    note d = deref_exact [OF st el, of b]
    show ?thesis
    proof (cases "deref r b")
      case (Inl f)
      from d [unfolded Inl] have "deref r' b = Inl f" by (cases "deref r' b") simp_all
      with True Inl show ?thesis by simp
    next
      case (Inr x)
      from d [unfolded Inr] obtain x' where x': "deref r' b = Inr x'" and xx: "exact_as j x x'"
        by (cases "deref r' b") simp_all
      have "exact_as j (acc + x) (acc' + x')"
        using j "1.prems"(3) xx by (rule exact_as_plus)
      with True Inr st el have "rel_sum (=) (exact_as j) (tester_sum_loop r (it_inc b) e (acc + x))
          (tester_sum_loop r' (it_inc b) e (acc' + x'))"
        by (rule "1.IH")
      with True Inr x' show ?thesis by simp
    qed
  qed
qed

lemma tester_sum_exact:
  fixes r :: "float region" and r' :: "weighted region"
  assumes "j \<le> 252" and "start r = start r'" and "list_all2 (exact_as j) (elems r) (elems r')"
  shows "rel_sum (=) (exact_as j) (tester_sum r b e) (tester_sum r' b e)"
  unfolding tester_sum_def using assms exact_as_zero by (rule tester_sum_loop_exact)

lemma simd_sum_loop_exact:
  fixes r :: "float region" and r' :: "weighted region"
  assumes j: "j \<le> 252"
  shows "start r = start r' \<Longrightarrow> list_all2 (exact_as j) (elems r) (elems r') \<Longrightarrow>
    list_all2 (exact_as j) acc acc' \<Longrightarrow>
    rel_sum (=) (rel_prod (=) (list_all2 (exact_as j)))
      (simd_sum_loop k r bb ee acc) (simd_sum_loop k r' bb ee acc')"
proof (induction k r bb ee acc arbitrary: acc' rule: simd_sum_loop.induct)
  case (1 k r bb ee acc)
  note st = "1.prems"(1) and el = "1.prems"(2)
  show ?case
  proof (cases "simd_ne bb ee")
    case False
    with 1 show ?thesis by simp
  next
    case True
    note d = simd_deref_exact [OF st el, of k bb]
    show ?thesis
    proof (cases "simd_deref k r bb")
      case (Inl f)
      from d [unfolded Inl] have "simd_deref k r' bb = Inl f"
        by (cases "simd_deref k r' bb") simp_all
      with True Inl show ?thesis by simp
    next
      case (Inr x)
      from d [unfolded Inr] obtain x' where x': "simd_deref k r' bb = Inr x'"
        and xx: "list_all2 (exact_as j) x x'"
        by (cases "simd_deref k r' bb") simp_all
      have "list_all2 (exact_as j) (simd_add acc x) (simd_add acc' x')"
        using j "1.prems"(3) xx by (rule simd_add_exact)
      with True Inr st el have "rel_sum (=) (rel_prod (=) (list_all2 (exact_as j)))
          (simd_sum_loop k r (simd_inc bb) ee (simd_add acc x))
          (simd_sum_loop k r' (simd_inc bb) ee (simd_add acc' x'))"
        by (rule "1.IH")
      with True Inr x' show ?thesis by simp
    qed
  qed
qed

lemma tester_simd_sum_exact:
  fixes r :: "float region" and r' :: "weighted region"
  assumes j: "j \<le> 252"
    and st: "start r = start r'" and el: "list_all2 (exact_as j) (elems r) (elems r')"
  shows "rel_sum (=) (exact_as j) (tester_simd_sum k r b e) (tester_simd_sum k r' b e)"
proof -
  note d = simd_deref_exact [OF st el]
  have single: "rel_sum (=) (exact_as j)
      (case simd_deref k r bb of Inl f \<Rightarrow> Inl f
       | Inr a \<Rightarrow> (case mask_both k a g u of Inl f \<Rightarrow> Inl f | Inr m \<Rightarrow> Inr (simd_hsum m)))
      (case simd_deref k r' bb of Inl f \<Rightarrow> Inl f
       | Inr a \<Rightarrow> (case mask_both k a g u of Inl f \<Rightarrow> Inl f | Inr m \<Rightarrow> Inr (simd_hsum m)))"
    for bb g u
    by (intro bind_exact [OF d] bind_exact [OF mask_both_exact])
      (auto intro!: simd_hsum_exact [OF j])
  have last: "rel_sum (=) (exact_as j)
      (case simd_deref k r bb' of Inl f \<Rightarrow> Inl f
       | Inr a' \<Rightarrow> (case mask_upper k a' u of Inl f \<Rightarrow> Inl f
                     | Inr m \<Rightarrow> Inr (simd_hsum (simd_add acc m))))
      (case simd_deref k r' bb' of Inl f \<Rightarrow> Inl f
       | Inr a' \<Rightarrow> (case mask_upper k a' u of Inl f \<Rightarrow> Inl f
                     | Inr m \<Rightarrow> Inr (simd_hsum (simd_add acc' m))))"
    if "list_all2 (exact_as j) acc acc'" for bb' u acc acc'
    by (intro bind_exact [OF d] bind_exact [OF mask_upper_exact])
      (auto intro!: simd_hsum_exact [OF j] simd_add_exact [OF j] that)
  have many: "rel_sum (=) (exact_as j)
      (case simd_deref k r bb of Inl f \<Rightarrow> Inl f
       | Inr a \<Rightarrow>
          (case mask_lower k a g of Inl f \<Rightarrow> Inl f
           | Inr acc \<Rightarrow>
              (case simd_sum_loop k r bb2 ee acc of Inl f \<Rightarrow> Inl f
               | Inr (bb', acc') \<Rightarrow>
                  (case simd_deref k r bb' of Inl f \<Rightarrow> Inl f
                   | Inr a' \<Rightarrow> (case mask_upper k a' u of Inl f \<Rightarrow> Inl f
                                 | Inr m \<Rightarrow> Inr (simd_hsum (simd_add acc' m)))))))
      (case simd_deref k r' bb of Inl f \<Rightarrow> Inl f
       | Inr a \<Rightarrow>
          (case mask_lower k a g of Inl f \<Rightarrow> Inl f
           | Inr acc \<Rightarrow>
              (case simd_sum_loop k r' bb2 ee acc of Inl f \<Rightarrow> Inl f
               | Inr (bb', acc') \<Rightarrow>
                  (case simd_deref k r' bb' of Inl f \<Rightarrow> Inl f
                   | Inr a' \<Rightarrow> (case mask_upper k a' u of Inl f \<Rightarrow> Inl f
                                 | Inr m \<Rightarrow> Inr (simd_hsum (simd_add acc' m)))))))"
    for bb g bb2 ee u
    by (intro bind_exact [OF d] bind_exact [OF mask_lower_exact]
        bind_exact [OF simd_sum_loop_exact [OF j st el]])
      (auto intro: last)
  show ?thesis
    unfolding tester_simd_sum_def Let_def
    using single many by (simp add: exact_as_zero)
qed

lemma sum_list_weigh:
  "sum_list (map weigh vs) = Weighted (sum_list vs) (nat (\<Sum>v\<leftarrow>vs. \<bar>v\<bar>))"
proof (induction vs)
  case Nil
  show ?case by (simp add: zero_weighted_def)
next
  case (Cons v vs)
  have "0 \<le> (\<Sum>v\<leftarrow>vs. \<bar>v\<bar>)" by (rule sum_list_nonneg) auto
  then show ?case
    using Cons by (simp add: plus_weighted_def weigh_def nat_add_distrib)
qed

lemma exact_as_sum:
  assumes "exact_as j f (sum_list (map weigh vs))" and "(\<Sum>v\<leftarrow>vs. \<bar>v\<bar>) \<le> 2 ^ 24"
  shows "f = scaled j (sum_list vs)"
proof -
  have "nat (\<Sum>v\<leftarrow>vs. \<bar>v\<bar>) \<le> 2 ^ 24"
    using assms(2) by (simp add: nat_le_iff)
  with assms(1) show ?thesis
    by (simp add: exact_as_def sum_list_weigh)
qed

text \<open>
  The two reductions on floats whose sum does not round: \<open>simd_sum(b, e)\<close> and
  \<open>sum(b, e + 1)\<close> both return the sum of the elements at the offsets \<open>b, ..., e\<close>.
\<close>

lemma simd_sum_float_exact:
  fixes r :: "float region"
  assumes "base b = start r" and "base e = start r"
    and "0 \<le> offset b" and "offset b \<le> offset e"
    and "0 < k" and "k dvd int (length (elems r))"
    and "take (nat (offset e + 1 - offset b)) (drop (nat (offset b)) (elems r)) = map (scaled j) vs"
    and "(\<Sum>v\<leftarrow>vs. \<bar>v\<bar>) \<le> 2 ^ 24" and "j \<le> 252"
  shows "tester_simd_sum k r b e = tester_sum r b (it_inc e)
    \<and> (offset e < int (length (elems r)) \<longrightarrow>
          tester_simd_sum k r b e = Inr (scaled j (sum_list vs)))"
proof -
  define p where "p = nat (offset b)"
  define m where "m = nat (offset e + 1 - offset b)"
  define n where "n = length (elems r)"
  define E where "E = map (\<lambda>i. if p \<le> i \<and> i < p + length vs then weigh (vs ! (i - p)) else overweight) [0..<n]"
  define r' where "r' = \<lparr>start = start r, elems = E\<rparr>"
  have vs: "take m (drop p (elems r)) = map (scaled j) vs"
    using assms(7) by (simp add: p_def m_def)
  have lvs: "length vs = min m (n - p)"
    using arg_cong [OF vs, of length] by (simp add: n_def)
  have lE: "length E = n"
    by (simp add: E_def)
  have el: "list_all2 (exact_as j) (elems r) E"
  proof (rule list_all2_all_nthI)
    show "length (elems r) = length E" by (simp add: lE n_def)
  next
    fix i assume i: "i < length (elems r)"
    show "exact_as j (elems r ! i) (E ! i)"
    proof (cases "p \<le> i \<and> i < p + length vs")
      case False
      with i show ?thesis by (auto simp add: E_def n_def exact_as_overweight)
    next
      case True
      then have "i - p < length vs" by linarith
      then have "map (scaled j) vs ! (i - p) = scaled j (vs ! (i - p))" by simp
      moreover have "take m (drop p (elems r)) ! (i - p) = elems r ! i"
      proof -
        have a: "i - p < m" and c: "p + (i - p) = i" and d: "p \<le> length (elems r)"
          using True i lvs by auto
        have "take m (drop p (elems r)) ! (i - p) = drop p (elems r) ! (i - p)"
          using a by simp
        also have "\<dots> = elems r ! (p + (i - p))"
          using d by (rule nth_drop)
        finally show ?thesis
          by (simp only: c)
      qed
      ultimately have "elems r ! i = scaled j (vs ! (i - p))"
        using vs by simp
      with True i show ?thesis by (simp add: E_def n_def exact_as_weigh)
    qed
  qed
  have sl: "take m (drop p E) = map weigh vs"
  proof (rule nth_equalityI)
    show "length (take m (drop p E)) = length (map weigh vs)"
      by (simp add: lE lvs)
  next
    fix i assume "i < length (take m (drop p E))"
    then have i: "i < m" "p + i < n" by (auto simp add: lE)
    then have "i < length vs" by (simp add: lvs)
    with i show "take m (drop p E) ! i = map weigh vs ! i"
      by (simp add: lE) (simp add: E_def)
  qed
  have st: "start r = start r'" and el': "list_all2 (exact_as j) (elems r) (elems r')"
    using el by (simp_all add: r'_def)
  have w: "tester_simd_sum k r' b e = tester_sum r' b (it_inc e)
    \<and> (offset e < int (length (elems r')) \<longrightarrow>
         tester_simd_sum k r' b e
           = Inr (sum_list (take (nat (offset e + 1 - offset b)) (drop (nat (offset b)) (elems r')))))"
    using assms(1-6) by (intro simd_sum_through_end_exact) (simp_all add: r'_def lE n_def)
  note rs = tester_simd_sum_exact [OF assms(9) st el', of k b e]
  note rp = tester_sum_exact [OF assms(9) st el', of b "it_inc e"]
  show ?thesis
  proof (cases "offset e < int (length (elems r))")
    case True
    with w have ws: "tester_simd_sum k r' b e = Inr (sum_list (map weigh vs))"
      using sl by (auto simp add: r'_def lE n_def p_def m_def)
    with w have wp: "tester_sum r' b (it_inc e) = Inr (sum_list (map weigh vs))"
      by metis
    from rs [unfolded ws] obtain f where f: "tester_simd_sum k r b e = Inr f"
      and ef: "exact_as j f (sum_list (map weigh vs))"
      by (cases "tester_simd_sum k r b e") simp_all
    from rp [unfolded wp] obtain g where g: "tester_sum r b (it_inc e) = Inr g"
      and eg: "exact_as j g (sum_list (map weigh vs))"
      by (cases "tester_sum r b (it_inc e)") simp_all
    from ef eg assms(8) have "f = scaled j (sum_list vs)" and "g = scaled j (sum_list vs)"
      by (simp_all add: exact_as_sum)
    with f g show ?thesis by simp
  next
    case False
    obtain pp q c where ob: "offset b = int pp" and oe: "offset e = int q" and k: "k = int c"
      using assms by (metis nat_0_le order_trans less_imp_le)
    have "tester_simd_sum (int c) r' b e = Inl OutOfBounds"
      using assms(1,2,4,5,6) False ob oe k
      by (intro tester_simd_sum_outside [where p = pp and q = q]) (simp_all add: r'_def lE n_def)
    with k have ws: "tester_simd_sum k r' b e = Inl OutOfBounds"
      by simp
    with w have wp: "tester_sum r' b (it_inc e) = Inl OutOfBounds"
      by metis
    from rs [unfolded ws] have "tester_simd_sum k r b e = Inl OutOfBounds"
      by (cases "tester_simd_sum k r b e") simp_all
    moreover from rp [unfolded wp] have "tester_sum r b (it_inc e) = Inl OutOfBounds"
      by (cases "tester_sum r b (it_inc e)") simp_all
    ultimately show ?thesis using False by simp
  qed
qed

text \<open>
  C9, as amended. For iterators \<open>b\<close> and \<open>e\<close> over the region with \<open>b\<close> not after \<open>e\<close>,
  \<open>simd_sum(b, e)\<close> folds the elements at the offsets \<open>b, ..., e\<close>, the one at \<open>e\<close>
  included, because the end lane is masked with \<open>(e % k) - (k - 1)\<close>, which keeps its
  elements \<open>0, ..., e % k\<close>. When these elements are multiples \<open>v * 2 ^ (j - 149)\<close> of
  one power of two, with integers \<open>v\<close> whose magnitudes sum to at most \<open>2 ^ 24\<close> and
  \<open>j\<close> at most \<open>252\<close>, so that no addition of \<open>float\<close> rounds or overflows,
  \<open>simd_sum(b, e)\<close> is equal to the plain fold \<open>sum(b, e + 1)\<close>: both are the sum of
  those elements when the element at \<open>e\<close> is inside the region, and both are the same
  fault when it is not. With \<open>j = 149\<close> the elements are integers.
\<close>

theorem simd_sum_folds_through_end:
  fixes r :: "float region"
  assumes "base b = start r" and "base e = start r"
    and "0 \<le> offset b" and "offset b \<le> offset e"
    and "0 < k" and "k dvd int (length (elems r))"
    and "take (nat (offset e + 1 - offset b)) (drop (nat (offset b)) (elems r)) = map (scaled j) vs"
    and "(\<Sum>v\<leftarrow>vs. \<bar>v\<bar>) \<le> 2 ^ 24" and "j \<le> 252"
  shows "tester_simd_sum k r b e = tester_sum r b (it_inc e)
    \<and> (offset e < int (length (elems r)) \<longrightarrow>
          tester_simd_sum k r b e = Inr (scaled j (sum_list vs)))"
  using assms by (rule simd_sum_float_exact)

theorem simd_sum_folds_through_end_witness:
  "tester_simd_sum 4
      \<lparr>start = 64, elems = map float_of_int [1, 2, 3, 4, 5, 6, 7, 8]\<rparr>
      \<lparr>base = 64, offset = 1\<rparr> \<lparr>base = 64, offset = 6\<rparr> = Inr (float_of_int 27)
   \<and> tester_sum
      \<lparr>start = 64, elems = map float_of_int [1, 2, 3, 4, 5, 6, 7, 8]\<rparr>
      \<lparr>base = 64, offset = 1\<rparr> (it_inc \<lparr>base = 64, offset = 6\<rparr>) = Inr (float_of_int 27)"
  using simd_sum_folds_through_end [of "\<lparr>base = 64, offset = 1\<rparr>"
      "\<lparr>start = 64, elems = map float_of_int [1, 2, 3, 4, 5, 6, 7, 8]\<rparr>"
      "\<lparr>base = 64, offset = 6\<rparr>" 4 149 "[2, 3, 4, 5, 6, 7]"]
  by (auto simp add: float_of_int_small)

text \<open>
  C9 as stated fails where an addition rounds, because the two reductions add in
  different orders. Over the eight elements \<open>1, 1, 1, 1, 2 ^ 24, - 2 ^ 24, 1, 1\<close> with
  \<open>k = 4\<close>, \<open>b\<close> at offset \<open>0\<close> and \<open>e\<close> at offset \<open>7\<close>: \<open>simd_sum\<close> adds the two
  lanes element by element, \<open>1 + 2 ^ 24\<close> rounds to \<open>2 ^ 24\<close>, and the result is
  \<open>(2 ^ 24 + (1 - 2 ^ 24)) + (2 + 2) = 5\<close>; \<open>sum(b, e + 1)\<close> adds from the left,
  nothing rounds, and the result is \<open>6\<close>.
\<close>

theorem simd_sum_rounding_counterexample:
  "tester_simd_sum 4
      \<lparr>start = 64, elems = map float_of_int [1, 1, 1, 1, 16777216, - 16777216, 1, 1]\<rparr>
      \<lparr>base = 64, offset = 0\<rparr> \<lparr>base = 64, offset = 7\<rparr> = Inr (float_of_int 5)
   \<and> tester_sum
      \<lparr>start = 64, elems = map float_of_int [1, 1, 1, 1, 16777216, - 16777216, 1, 1]\<rparr>
      \<lparr>base = 64, offset = 0\<rparr> (it_inc \<lparr>base = 64, offset = 7\<rparr>) = Inr (float_of_int 6)"
  by code_simp

section \<open>The reduction protocol against the plain fold\<close>

text \<open>
  C1. The claim is that \<open>simd_sum(b, e)\<close> equals the plain fold \<open>sum(b, e)\<close> over the
  same range. On the code it does not: over eight elements \<open>1, ..., 8\<close> with \<open>k = 4\<close>,
  \<open>b\<close> at offset \<open>0\<close> and \<open>e\<close> at offset \<open>1\<close>, \<open>sum\<close> is \<open>1\<close> and \<open>simd_sum\<close> is
  \<open>3\<close>, the element at \<open>e\<close> included. No addition rounds here.
\<close>

theorem simd_sum_differs_from_sum:
  "tester_simd_sum 4
      \<lparr>start = 64, elems = map float_of_int [1, 2, 3, 4, 5, 6, 7, 8]\<rparr>
      \<lparr>base = 64, offset = 0\<rparr> \<lparr>base = 64, offset = 1\<rparr> = Inr (float_of_int 3)
   \<and> tester_sum
      \<lparr>start = 64, elems = map float_of_int [1, 2, 3, 4, 5, 6, 7, 8]\<rparr>
      \<lparr>base = 64, offset = 0\<rparr> \<lparr>base = 64, offset = 1\<rparr> = Inr (float_of_int 1)"
  by code_simp

text \<open>
  C2. The claim is that \<open>simd_sum(b, b)\<close> is the identity \<open>0\<close>. On the code
  \<open>b.upper_block()\<close> is always one lane after \<open>b.lower_block()\<close>, so the first test
  \<open>bb == ee\<close> never holds for \<open>b == e\<close>, and the single-lane branch returns the
  element at \<open>b\<close>: over the same eight elements, at offset \<open>2\<close>, \<open>simd_sum(b, b)\<close> is
  \<open>3\<close> where \<open>sum(b, b)\<close> is \<open>0\<close>.
\<close>

theorem simd_sum_empty_range_not_zero:
  "simd_eq (lower_block 4 \<lparr>base = 64, offset = 2\<rparr>) (upper_block 4 \<lparr>base = 64, offset = 2\<rparr>) = False
   \<and> tester_simd_sum 4
      \<lparr>start = 64, elems = map float_of_int [1, 2, 3, 4, 5, 6, 7, 8]\<rparr>
      \<lparr>base = 64, offset = 2\<rparr> \<lparr>base = 64, offset = 2\<rparr> = Inr (float_of_int 3)
   \<and> tester_sum
      \<lparr>start = 64, elems = map float_of_int [1, 2, 3, 4, 5, 6, 7, 8]\<rparr>
      \<lparr>base = 64, offset = 2\<rparr> \<lparr>base = 64, offset = 2\<rparr> = Inr (float_of_int 0)"
  by code_simp

text \<open>
  C10. The claim is that every lane \<open>simd_sum\<close> dereferences has an index below
  \<open>rounded_count / k\<close>. On the code, for a container of four elements with \<open>k = 4\<close>
  (one lane, \<open>rounded_count = 4\<close>) and the range from \<open>begin()\<close> to \<open>end()\<close>, the
  decremented end lane \<open>e.upper_block() - 1\<close> has index \<open>1 = rounded_count / k\<close>, and
  dereferencing it reads past the region.
\<close>

theorem simd_sum_reads_past_the_region:
  "rounded_count gcc64 4 4 = 4
   \<and> simd_offset (simd_dec (upper_block 4 \<lparr>base = 64, offset = 4\<rparr>)) = 1
   \<and> simd_deref 4 \<lparr>start = 64, elems = map float_of_int [1, 2, 3, 4]\<rparr>
        (simd_dec (upper_block 4 \<lparr>base = 64, offset = 4\<rparr>)) = Inl OutOfBounds
   \<and> tester_simd_sum 4 \<lparr>start = 64, elems = map float_of_int [1, 2, 3, 4]\<rparr>
      \<lparr>base = 64, offset = 0\<rparr> \<lparr>base = 64, offset = 4\<rparr> = Inl OutOfBounds
   \<and> tester_sum \<lparr>start = 64, elems = map float_of_int [1, 2, 3, 4]\<rparr>
      \<lparr>base = 64, offset = 0\<rparr> \<lparr>base = 64, offset = 4\<rparr> = Inr (float_of_int 10)"
proof -
  have "rounded_count gcc64 4 4 = 4"
    by (simp add: rounded_count_def)
  moreover have "simd_offset (simd_dec (upper_block 4 \<lparr>base = 64, offset = 4\<rparr>)) = 1
   \<and> simd_deref 4 \<lparr>start = 64, elems = map float_of_int [1, 2, 3, 4]\<rparr>
        (simd_dec (upper_block 4 \<lparr>base = 64, offset = 4\<rparr>)) = Inl OutOfBounds
   \<and> tester_simd_sum 4 \<lparr>start = 64, elems = map float_of_int [1, 2, 3, 4]\<rparr>
      \<lparr>base = 64, offset = 0\<rparr> \<lparr>base = 64, offset = 4\<rparr> = Inl OutOfBounds
   \<and> tester_sum \<lparr>start = 64, elems = map float_of_int [1, 2, 3, 4]\<rparr>
      \<lparr>base = 64, offset = 0\<rparr> \<lparr>base = 64, offset = 4\<rparr> = Inr (float_of_int 10)"
    by code_simp
  ultimately show ?thesis by simp
qed

section \<open>Rounding and alignment\<close>

text \<open>
  The rounding expression over the natural numbers; \<open>rounded_count\<close> is its value
  where \<open>s + k\<close> is at most \<open>2 ^ w\<close>.
\<close>

lemma round_count_ge: "0 < k \<Longrightarrow> s \<le> (s div k + 1) * (k::nat)"
proof -
  assume k: "0 < k"
  have a: "s div k * k + s mod k = s" by simp
  have b: "s mod k < k" using k by simp
  from a b show "s \<le> (s div k + 1) * k"
    by (simp only: add_mult_distrib mult_1)
qed

lemma round_count_less: "s mod k \<noteq> 0 \<Longrightarrow> (s div k + 1) * k < s + (k::nat)"
proof -
  assume "s mod k \<noteq> 0"
  moreover have a: "s div k * k + s mod k = s" by simp
  ultimately show "(s div k + 1) * k < s + k"
    by (simp only: add_mult_distrib mult_1)
qed

lemma rounded_count_exact:
  assumes "0 < k" and "s + k \<le> 2 ^ ptrdiff_bits pf"
  shows "rounded_count pf s k = (if s mod k = 0 then s else (s div k + 1) * k)"
proof (cases "s mod k = 0")
  case True
  then show ?thesis by (simp add: rounded_count_def)
next
  case False
  then have "(s div k + 1) * k < s + k" by (rule round_count_less)
  with assms(2) have "(s div k + 1) * k < 2 ^ ptrdiff_bits pf" by simp
  with False show ?thesis
    by (simp add: rounded_count_def to_size_t_def)
qed

lemma rounded_count_dvd:
  assumes "0 < k" and "s + k \<le> 2 ^ ptrdiff_bits pf"
  shows "k dvd rounded_count pf s k"
  by (simp add: rounded_count_exact [OF assms] dvd_eq_mod_eq_0)

lemma rounded_count_ge:
  assumes "0 < k" and "s + k \<le> 2 ^ ptrdiff_bits pf"
  shows "s \<le> rounded_count pf s k"
  using round_count_ge [OF assms(1), of s] by (simp add: rounded_count_exact [OF assms])

lemma rounded_count_less:
  assumes "0 < k" and "s + k \<le> 2 ^ ptrdiff_bits pf"
  shows "rounded_count pf s k < s + k"
  using round_count_less [of s k] assms(1) by (simp add: rounded_count_exact [OF assms])

lemma rounded_count_least:
  assumes "0 < k" and "s + k \<le> 2 ^ ptrdiff_bits pf" and "k dvd m" and "s \<le> m"
  shows "rounded_count pf s k \<le> m"
proof -
  from assms(3) obtain j where m: "m = k * j" ..
  have "rounded_count pf s k < m + k"
    using rounded_count_less [OF assms(1,2)] assms(4) by simp
  moreover obtain i where rc: "rounded_count pf s k = k * i"
    using rounded_count_dvd [OF assms(1,2)] by (auto simp: dvd_def)
  ultimately have "k * i < k * (j + 1)"
    using m by simp
  then have "i < j + 1"
    unfolding mult_less_cancel1 by simp
  then have "k * i \<le> k * j"
    by simp
  with m rc show ?thesis by simp
qed


lemma to_size_t_id: "n < 2 ^ ptrdiff_bits pf \<Longrightarrow> to_size_t pf n = n"
  by (simp add: to_size_t_def)

text \<open>
  When \<open>(s + 2 * k) * sizeof(T)\<close> is at most \<open>2 ^ w\<close>, nothing in the constructor
  wraps around.
\<close>

lemma no_wrap:
  assumes k: "0 < k" and t: "0 < t" and fits: "(s + 2 * k) * t \<le> 2 ^ ptrdiff_bits pf"
  shows "s + k \<le> 2 ^ ptrdiff_bits pf"
    and "to_size_t pf (rounded_count pf s k * t) = rounded_count pf s k * t"
    and "to_size_t pf (rounded_count pf s k + k) = rounded_count pf s k + k"
    and "(rounded_count pf s k + k) * t < 2 ^ ptrdiff_bits pf"
proof -
  have "(s + k) * 1 \<le> (s + 2 * k) * t"
    using t by (intro mult_le_mono) simp_all
  with fits show sk: "s + k \<le> 2 ^ ptrdiff_bits pf" by simp
  have "rounded_count pf s k + k < s + 2 * k"
    using rounded_count_less [OF k sk] by simp
  then have "(rounded_count pf s k + k) * t < (s + 2 * k) * t"
    using t by simp
  from this fits show big: "(rounded_count pf s k + k) * t < 2 ^ ptrdiff_bits pf"
    by (rule less_le_trans)
  have "rounded_count pf s k * t \<le> (rounded_count pf s k + k) * t"
    by simp
  from this big have "rounded_count pf s k * t < 2 ^ ptrdiff_bits pf"
    by (rule le_less_trans)
  then show "to_size_t pf (rounded_count pf s k * t) = rounded_count pf s k * t"
    by (rule to_size_t_id)
  have "rounded_count pf s k + k \<le> (rounded_count pf s k + k) * t"
    using t by simp
  from this big have "rounded_count pf s k + k < 2 ^ ptrdiff_bits pf"
    by (rule le_less_trans)
  then show "to_size_t pf (rounded_count pf s k + k) = rounded_count pf s k + k"
    by (rule to_size_t_id)
qed

text \<open>
  The mask: for a power of two it rounds up to the next multiple; for any alignment the
  result is at or after the address and less than one alignment after it.
\<close>

lemma and_minus_pow2:
  "(x::int) AND - (2 ^ j) = x div 2 ^ j * 2 ^ j"
proof -
  have "x AND NOT (mask j) = push_bit j (drop_bit j x)"
    by (rule bit_eqI) (auto simp add: bit_simps)
  then show ?thesis
    by (simp add: minus_exp_eq_not_mask push_bit_eq_mult drop_bit_eq_div)
qed

lemma align_up_pow2:
  "align_up (2 ^ j) p = (p + 2 ^ j - 1) div 2 ^ j * 2 ^ j"
proof -
  have "Suc 0 \<le> p + 2 ^ j"
    by (simp add: Suc_leI trans_less_add2)
  then have "int p - 1 + int (2 ^ j) = int (p + 2 ^ j - 1)"
    by (simp add: of_nat_diff)
  then have "align_up (2 ^ j) p = nat (int (p + 2 ^ j - 1) AND - (2 ^ j))"
    by (simp add: align_up_def)
  also have "\<dots> = nat (int (p + 2 ^ j - 1) div 2 ^ j * 2 ^ j)"
    by (simp only: and_minus_pow2)
  also have "\<dots> = (p + 2 ^ j - 1) div 2 ^ j * 2 ^ j"
    by (metis nat_int of_nat_mult of_nat_power of_nat_numeral zdiv_int)
  finally show ?thesis .
qed

lemma and_minus_bounds:
  assumes "0 < (a::int)" and "0 \<le> x"
  shows "x - (a - 1) \<le> x AND - a" and "x AND - a \<le> x"
proof -
  have m: "- a = NOT (a - 1)"
    by (simp add: not_int_def)
  have "x - (x AND (a - 1)) = x AND NOT (x AND (a - 1))"
    by (rule disjunctive_diff_eq_and_not) (rule bit_eqI, simp add: bit_simps)
  also have "\<dots> = x AND NOT (a - 1)"
    by (rule bit_eqI) (auto simp add: bit_simps)
  finally have eq: "x AND - a = x - (x AND (a - 1))"
    by (simp add: m)
  have "x AND (a - 1) \<le> a - 1"
    using assms by (intro AND_upper2) simp
  moreover have "0 \<le> x AND (a - 1)"
    using assms by simp
  ultimately show "x - (a - 1) \<le> x AND - a" and "x AND - a \<le> x"
    using eq by simp_all
qed

lemma align_up_bounds:
  assumes "0 < a"
  shows "p \<le> align_up a p" and "align_up a p < p + a"
proof -
  have x: "0 \<le> int p - 1 + int a" using assms by simp
  have a: "0 < int a" using assms by simp
  from and_minus_bounds [OF a x]
  show "p \<le> align_up a p" and "align_up a p < p + a"
    by (simp_all add: align_up_def)
qed

lemma round_up_ge:
  assumes "0 < (a::nat)"
  shows "p \<le> ((p + a - 1) div a) * a"
proof -
  have "p + a - 1 = (p + a - 1) div a * a + (p + a - 1) mod a" by simp
  moreover have "(p + a - 1) mod a < a" using assms by simp
  ultimately have "p + a - 1 \<le> (p + a - 1) div a * a + (a - 1)" by linarith
  then show ?thesis using assms by linarith
qed

lemma round_up_least:
  assumes "0 < (a::nat)" and "a dvd q" and "p \<le> q"
  shows "((p + a - 1) div a) * a \<le> q"
proof -
  from assms(2) obtain j where q: "q = a * j" ..
  have "p + a - 1 < a * j + a" using assms q by linarith
  then have "(p + a - 1) div a < j + 1"
    using assms(1) by (simp add: div_less_iff_less_mult algebra_simps)
  then have "(p + a - 1) div a * a \<le> j * a"
    by (intro mult_le_mono1) simp
  with q show ?thesis by (simp add: mult.commute)
qed

lemma align_up_pow2_dvd: "2 ^ j dvd align_up (2 ^ j) p"
  by (simp add: align_up_pow2)

lemma align_up_pow2_ge: "p \<le> align_up (2 ^ j) p"
  unfolding align_up_pow2 by (rule round_up_ge) simp

lemma align_up_pow2_least: "2 ^ j dvd q \<Longrightarrow> p \<le> q \<Longrightarrow> align_up (2 ^ j) p \<le> q"
  unfolding align_up_pow2 by (rule round_up_least) simp_all

lemma std_align_Some:
  assumes "std_align a sz p space = Some (q, space')"
  shows "q = align_up a p \<and> sz \<le> space \<and> q - p \<le> space - sz \<and> space' = space - (q - p)"
  using assms by (auto simp: std_align_def Let_def not_less split: if_splits)

lemma std_align_None_iff:
  "std_align (2 ^ j) sz p space = None
     \<longleftrightarrow> \<not> (\<exists>q. 2 ^ j dvd q \<and> p \<le> q \<and> q + sz \<le> p + space)"
proof -
  let ?q = "align_up (2 ^ j) p"
  have ge: "p \<le> ?q" by (rule align_up_pow2_ge)
  show ?thesis
  proof
    assume none: "std_align (2 ^ j) sz p space = None"
    show "\<not> (\<exists>q. 2 ^ j dvd q \<and> p \<le> q \<and> q + sz \<le> p + space)"
    proof
      assume "\<exists>q. 2 ^ j dvd q \<and> p \<le> q \<and> q + sz \<le> p + space"
      then obtain q where "2 ^ j dvd q" and "p \<le> q" and fit: "q + sz \<le> p + space" by blast
      then have "?q \<le> q" by (intro align_up_pow2_least)
      with fit ge have "sz \<le> space" and "?q - p \<le> space - sz" by linarith+
      with none show False
        by (simp add: std_align_def Let_def not_less)
    qed
  next
    assume none: "\<not> (\<exists>q. 2 ^ j dvd q \<and> p \<le> q \<and> q + sz \<le> p + space)"
    have "2 ^ j dvd ?q" by (rule align_up_pow2_dvd)
    with none ge have "\<not> ?q + sz \<le> p + space" by blast
    then have "space < sz \<or> space - sz < ?q - p" using ge by linarith
    then show "std_align (2 ^ j) sz p space = None"
      by (auto simp add: std_align_def Let_def)
  qed
qed

text \<open>
  With one alignment of space beyond the size, \<open>std::align\<close> finds room, and an
  aligned address with room exists.
\<close>

lemma std_align_room:
  assumes "0 < a"
  shows "std_align a sz raw (sz + a) \<noteq> None"
proof -
  have "align_up a raw < raw + a" and "raw \<le> align_up a raw"
    using assms by (rule align_up_bounds)+
  then have "align_up a raw - raw \<le> sz + a - sz"
    by simp
  then show ?thesis
    by (simp add: std_align_def Let_def not_less)
qed

lemma aligned_room:
  assumes "0 < (a::nat)"
  shows "\<exists>q. a dvd q \<and> raw \<le> q \<and> q + sz \<le> raw + (sz + a)"
proof -
  let ?q = "(raw + a - 1) div a * a"
  have "raw \<le> ?q"
    using assms by (rule round_up_ge)
  moreover have "?q \<le> raw + a - 1"
    by simp
  then have "?q + sz \<le> raw + (sz + a)"
    using assms by linarith
  moreover have "a dvd ?q"
    by simp
  ultimately show ?thesis
    by blast
qed

section \<open>The constructor\<close>

lemma lane_width_pos:
  assumes "0 < sizeof_S pf" and "sizeof_T pf dvd sizeof_S pf"
  shows "0 < sizeof_S pf div sizeof_T pf"
    and "sizeof_S pf div sizeof_T pf * sizeof_T pf = sizeof_S pf"
    and "0 < sizeof_T pf"
proof -
  show m: "sizeof_S pf div sizeof_T pf * sizeof_T pf = sizeof_S pf"
    using assms(2) by simp
  show "0 < sizeof_S pf div sizeof_T pf"
  proof (rule Nat.gr0I)
    assume "sizeof_S pf div sizeof_T pf = 0"
    with m assms(1) show False by simp
  qed
  show "0 < sizeof_T pf"
  proof (rule Nat.gr0I)
    assume "sizeof_T pf = 0"
    with m assms(1) show False by simp
  qed
qed

lemma ctor_gnuc_Inr:
  assumes "simd_vector_gnuc pf h s = (Inr v, h')"
    and "k = sizeof_S pf div sizeof_T pf"
    and "bytes = to_size_t pf (rounded_count pf s k * sizeof_T pf)"
  shows "aligned_alloc pf h (sizeof_S pf) bytes \<noteq> 0"
    and "raw_block v = aligned_alloc pf h (sizeof_S pf) bytes"
    and "aligned_begin v = aligned_alloc pf h (sizeof_S pf) bytes"
    and "h' = allocate (request h) (raw_block v) bytes"
  using assms by (auto simp: simd_vector_gnuc_def Let_def split: if_splits)

lemma ctor_other_Inr:
  assumes "simd_vector_other pf h s = (Inr v, h')"
    and "k = sizeof_S pf div sizeof_T pf"
    and "bytes = to_size_t pf (rounded_count pf s k * sizeof_T pf)"
    and "required_count = to_size_t pf (rounded_count pf s k + k)"
  shows "\<exists>space.
      new_array pf h required_count = Some (raw_block v)
    \<and> std_align (sizeof_S pf) bytes (raw_block v) (to_size_t pf (required_count * sizeof_T pf))
        = Some (aligned_begin v, space)
    \<and> h' = allocate (request h) (raw_block v) (required_count * sizeof_T pf)"
  using assms by (auto simp: simd_vector_other_def Let_def split: option.splits)

lemma ctor_gcc64_5:
  "simd_vector_ctor gcc64 empty_heap 5
     = (Inr \<lparr>vec_k = 4, raw_block = 1024, aligned_begin = 1024, aligned_end = 1044, content_size = 5\<rparr>,
        allocate (request empty_heap) 1024 32)"
  by (simp add: simd_vector_ctor_def simd_vector_gnuc_def gcc64_def rounded_count_def to_size_t_def
      aligned_alloc_def align_up_def Let_def)

lemma ctor_msvc64_5:
  "simd_vector_ctor msvc64 empty_heap 5
     = (Inr \<lparr>vec_k = 4, raw_block = 4100, aligned_begin = 4112, aligned_end = 4132, content_size = 5\<rparr>,
        allocate (request empty_heap) 4100 48)"
  by (simp add: simd_vector_ctor_def simd_vector_other_def msvc64_def rounded_count_def to_size_t_def
      new_array_def std_align_def align_up_def Let_def)

text \<open>
  C8, as amended. Let \<open>sizeof(S)\<close> be a power of two and the count \<open>s\<close> small enough
  for the constructor's \<open>std::size_t\<close> arithmetic not to wrap around:
  \<open>(s + 2 * k) * sizeof(T)\<close> is at most \<open>2 ^ w\<close>. Then for every container that the
  constructor returns, under either branch, the address that \<open>begin()\<close> refers to is a
  multiple of \<open>sizeof(S)\<close>; the region of \<open>rounded_count\<close> elements from there lies
  inside the block that was allocated; \<open>rounded_count\<close> is the smallest multiple of
  \<open>k = sizeof(S) / sizeof(T)\<close> that is at least the requested count; and every
  logical element lies in a lane that is complete inside the region. The static
  assertion gives \<open>sizeof(T)\<close> divides \<open>sizeof(S)\<close>.
\<close>

theorem aligned_region:
  assumes ok: "simd_vector_ctor pf h s = (Inr v, h')"
    and dv: "sizeof_T pf dvd sizeof_S pf"
    and p2: "sizeof_S pf = 2 ^ j"
    and fits: "(s + 2 * (sizeof_S pf div sizeof_T pf)) * sizeof_T pf \<le> 2 ^ ptrdiff_bits pf"
  shows "let k = sizeof_S pf div sizeof_T pf; rc = rounded_count pf s k in
      sizeof_S pf dvd base (begin_it v)
    \<and> (\<exists>n. live h' (raw_block v) = Some n \<and> raw_block v \<le> aligned_begin v
          \<and> aligned_begin v + rc * sizeof_T pf \<le> raw_block v + n)
    \<and> k dvd rc \<and> s \<le> rc \<and> (\<forall>m. k dvd m \<and> s \<le> m \<longrightarrow> rc \<le> m)
    \<and> (\<forall>i < s. Suc (i div k) * k \<le> rc)"
proof -
  define k where "k = sizeof_S pf div sizeof_T pf"
  define rc where "rc = rounded_count pf s k"
  have sS: "0 < sizeof_S pf"
    by (simp add: p2)
  have k: "0 < k" and kT: "k * sizeof_T pf = sizeof_S pf" and t: "0 < sizeof_T pf"
    using lane_width_pos [OF sS dv] by (simp_all add: k_def)
  note nw = no_wrap [OF k t fits [folded k_def], folded rc_def]
  have rounding: "k dvd rc \<and> s \<le> rc \<and> (\<forall>m. k dvd m \<and> s \<le> m \<longrightarrow> rc \<le> m)"
    using k nw(1) by (auto simp: rc_def rounded_count_dvd rounded_count_ge rounded_count_least)
  have lanes: "\<forall>i < s. Suc (i div k) * k \<le> rc"
  proof (intro allI impI)
    fix i assume "i < s"
    with rounding have "i < rc" by simp
    with k rounding show "Suc (i div k) * k \<le> rc"
      by (intro lane_fits) simp_all
  qed
  have mem: "sizeof_S pf dvd aligned_begin v
    \<and> (\<exists>n. live h' (raw_block v) = Some n \<and> raw_block v \<le> aligned_begin v
          \<and> aligned_begin v + rc * sizeof_T pf \<le> raw_block v + n)"
  proof (cases "gnuc pf")
    case True
    with ok have g: "simd_vector_gnuc pf h s = (Inr v, h')"
      by (simp add: simd_vector_ctor_def)
    note inv = ctor_gnuc_Inr [OF g k_def refl, folded rc_def, unfolded nw(2)]
    from inv(1) have "aligned_alloc pf h (sizeof_S pf) (rc * sizeof_T pf)
        = align_up (2 ^ j) (chunk pf h (sizeof_S pf) (rc * sizeof_T pf))"
      by (simp add: aligned_alloc_def Let_def p2 split: if_splits)
    then have "sizeof_S pf dvd aligned_begin v"
      by (simp add: inv(3) p2 align_up_pow2_dvd)
    moreover have "live h' (raw_block v) = Some (rc * sizeof_T pf)"
      by (subst inv(4)) (simp add: allocate_def request_def)
    ultimately show ?thesis
      using inv(2,3) by simp
  next
    case False
    with ok have o: "simd_vector_other pf h s = (Inr v, h')"
      by (simp add: simd_vector_ctor_def)
    have b: "to_size_t pf ((rc + k) * sizeof_T pf) = (rc + k) * sizeof_T pf"
      using nw(4) by (rule to_size_t_id)
    from ctor_other_Inr [OF o k_def refl refl, folded rc_def, unfolded nw(2) nw(3) b]
    obtain space where al: "std_align (sizeof_S pf) (rc * sizeof_T pf) (raw_block v) ((rc + k) * sizeof_T pf)
          = Some (aligned_begin v, space)"
      and h': "h' = allocate (request h) (raw_block v) ((rc + k) * sizeof_T pf)"
      by blast
    note sa = std_align_Some [OF al, unfolded p2]
    from sa have q: "aligned_begin v = align_up (2 ^ j) (raw_block v)"
      by blast
    from sa have fit: "aligned_begin v - raw_block v \<le> (rc + k) * sizeof_T pf - rc * sizeof_T pf"
      by blast
    have ge: "raw_block v \<le> aligned_begin v"
      unfolding q by (rule align_up_pow2_ge)
    have "sizeof_S pf dvd aligned_begin v"
      unfolding q p2 by (rule align_up_pow2_dvd)
    moreover have "aligned_begin v + rc * sizeof_T pf \<le> raw_block v + (rc + k) * sizeof_T pf"
      using fit ge by (simp add: add_mult_distrib)
    moreover have "live h' (raw_block v) = Some ((rc + k) * sizeof_T pf)"
      by (simp add: h' allocate_def request_def)
    ultimately show ?thesis
      using ge by simp
  qed
  show ?thesis
    using mem rounding lanes
    unfolding Let_def k_def [symmetric] rc_def [symmetric] begin_it_def
    by simp
qed

theorem aligned_region_witness:
  "simd_vector_ctor gcc64 empty_heap 5
     = (Inr \<lparr>vec_k = 4, raw_block = 1024, aligned_begin = 1024, aligned_end = 1044, content_size = 5\<rparr>,
        allocate (request empty_heap) 1024 32)
   \<and> 16 dvd base (begin_it \<lparr>vec_k = 4, raw_block = 1024, aligned_begin = 1024, aligned_end = 1044,
        content_size = 5\<rparr>)
   \<and> rounded_count gcc64 5 4 = 8
   \<and> simd_vector_ctor msvc64 empty_heap 5
     = (Inr \<lparr>vec_k = 4, raw_block = 4100, aligned_begin = 4112, aligned_end = 4132, content_size = 5\<rparr>,
        allocate (request empty_heap) 4100 48)
   \<and> 16 dvd base (begin_it \<lparr>vec_k = 4, raw_block = 4100, aligned_begin = 4112, aligned_end = 4132,
        content_size = 5\<rparr>)"
proof -
  have r: "rounded_count gcc64 5 4 = 8"
    by (simp add: rounded_count_def to_size_t_def gcc64_def)
  show ?thesis
    using aligned_region [OF ctor_gcc64_5, of 4] aligned_region [OF ctor_msvc64_5, of 4]
      ctor_gcc64_5 ctor_msvc64_5 r
    by (simp add: gcc64_def msvc64_def Let_def)
qed

text \<open>
  C8 as stated fails in two ways. The static assertion admits a lane type whose size
  is not a power of two, such as the structure \<open>s2\<close> of 12 bytes over \<open>uint32_t\<close>
  (\<open>k = 3\<close>): for six elements and memory found at address \<open>56\<close>, both branches
  return a container whose \<open>begin()\<close> is at address \<open>64\<close>, which is not a multiple of
  \<open>12\<close>. And the byte count wraps around: for \<open>2 ^ 62\<close> elements of \<open>float\<close> where
  \<open>std::size_t\<close> has 64 bits, \<open>rounded_count * sizeof(T)\<close> is \<open>2 ^ 64\<close>, which is
  \<open>0\<close>; the allocation of no bytes succeeds, and the container of \<open>2 ^ 62\<close> elements
  owns a block of length \<open>0\<close>.
\<close>

theorem aligned_region_counterexample:
  "simd_vector_ctor gcc64_s2 empty_heap 6
     = (Inr \<lparr>vec_k = 3, raw_block = 64, aligned_begin = 64, aligned_end = 88, content_size = 6\<rparr>,
        allocate (request empty_heap) 64 24)
   \<and> simd_vector_ctor msvc64_s2 empty_heap 6
     = (Inr \<lparr>vec_k = 3, raw_block = 56, aligned_begin = 64, aligned_end = 88, content_size = 6\<rparr>,
        allocate (request empty_heap) 56 36)
   \<and> \<not> 12 dvd base (begin_it \<lparr>vec_k = 3, raw_block = 64, aligned_begin = 64, aligned_end = 88,
        content_size = 6\<rparr>)
   \<and> \<not> 12 dvd base (begin_it \<lparr>vec_k = 3, raw_block = 56, aligned_begin = 64, aligned_end = 88,
        content_size = 6\<rparr>)
   \<and> simd_vector_ctor gcc64 empty_heap (2 ^ 62)
     = (Inr \<lparr>vec_k = 4, raw_block = 1024, aligned_begin = 1024, aligned_end = 1024 + 2 ^ 64,
             content_size = 2 ^ 62\<rparr>,
        allocate (request empty_heap) 1024 0)
   \<and> rounded_count gcc64 (2 ^ 62) 4 = 2 ^ 62
   \<and> live (allocate (request empty_heap) 1024 0) 1024 = Some 0"
  by (simp add: simd_vector_ctor_def simd_vector_gnuc_def simd_vector_other_def gcc64_s2_def
      msvc64_s2_def gcc64_def rounded_count_def to_size_t_def aligned_alloc_def
      new_array_def std_align_def align_up_def begin_it_def allocate_def request_def Let_def)

text \<open>
  C7. The constructor throws \<open>alignment_exception\<close> exactly when the aligned allocation
  cannot be satisfied: under \<open>__GNUC__\<close> when \<open>aligned_alloc\<close> returns \<open>NULL\<close>, in the
  other branch when \<open>new\<close> has returned a block and \<open>std::align\<close> returns a null
  pointer. Where \<open>sizeof(S)\<close> is a power of two, and where the static assertion holds
  and nothing wraps around, that says that the block holds no address that is a
  multiple of \<open>sizeof(S)\<close> with room for \<open>rounded_count\<close> elements after it. One
  allocation is asked for, whatever the outcome, and the failure is the result of the
  call: the \<open>__GNUC__\<close> branch has no other failure and leaves the blocks of the heap
  as they were. A failed construction yields no container; a successful one has all its
  fields set and exactly \<open>s\<close> logical elements.
\<close>

theorem alignment_exception_iff:
  "let k = sizeof_S pf div sizeof_T pf; rc = rounded_count pf s k;
       bytes = to_size_t pf (rc * sizeof_T pf); required_count = to_size_t pf (rc + k) in
      (fst (simd_vector_ctor pf h s) = Inl alignment_exception \<longleftrightarrow>
         (if gnuc pf then aligned_alloc pf h (sizeof_S pf) bytes = 0
          else (\<exists>raw. new_array pf h required_count = Some raw
                 \<and> std_align (sizeof_S pf) bytes raw (required_count * sizeof_T pf) = None)))
    \<and> ((\<exists>j. sizeof_S pf = 2 ^ j)
          \<or> (0 < sizeof_S pf \<and> sizeof_T pf dvd sizeof_S pf
              \<and> (s + 2 * k) * sizeof_T pf \<le> 2 ^ ptrdiff_bits pf) \<longrightarrow>
         (fst (simd_vector_ctor pf h s) = Inl alignment_exception \<longleftrightarrow>
           (if gnuc pf then aligned_alloc pf h (sizeof_S pf) bytes = 0
            else (\<exists>raw. new_array pf h required_count = Some raw
                   \<and> \<not> (\<exists>q. sizeof_S pf dvd q \<and> raw \<le> q
                            \<and> q + bytes \<le> raw + required_count * sizeof_T pf)))))
    \<and> requests (snd (simd_vector_ctor pf h s)) = Suc (requests h)
    \<and> (case fst (simd_vector_ctor pf h s) of
          Inl e \<Rightarrow> (gnuc pf \<longrightarrow> e = alignment_exception
                    \<and> live (snd (simd_vector_ctor pf h s)) = live h
                    \<and> released (snd (simd_vector_ctor pf h s)) = released h)
        | Inr v \<Rightarrow> simd_vector_size v = s \<and> content_size v = s \<and> vec_k v = int k
            \<and> aligned_end v = aligned_begin v + s * sizeof_T pf
            \<and> live (snd (simd_vector_ctor pf h s)) (raw_block v) \<noteq> None)"
proof -
  define k where "k = sizeof_S pf div sizeof_T pf"
  define rc where "rc = rounded_count pf s k"
  define bytes where "bytes = to_size_t pf (rc * sizeof_T pf)"
  define required_count where "required_count = to_size_t pf (rc + k)"
  let ?ctor = "simd_vector_ctor pf h s"
  let ?lib = "if gnuc pf then aligned_alloc pf h (sizeof_S pf) bytes = 0
          else (\<exists>raw. new_array pf h required_count = Some raw
                 \<and> std_align (sizeof_S pf) bytes raw (required_count * sizeof_T pf) = None)"
  let ?room = "if gnuc pf then aligned_alloc pf h (sizeof_S pf) bytes = 0
            else (\<exists>raw. new_array pf h required_count = Some raw
                   \<and> \<not> (\<exists>q. sizeof_S pf dvd q \<and> raw \<le> q
                            \<and> q + bytes \<le> raw + required_count * sizeof_T pf))"
  let ?state = "case fst ?ctor of
          Inl e \<Rightarrow> (gnuc pf \<longrightarrow> e = alignment_exception
                    \<and> live (snd ?ctor) = live h
                    \<and> released (snd ?ctor) = released h)
        | Inr v \<Rightarrow> simd_vector_size v = s \<and> content_size v = s \<and> vec_k v = int k
            \<and> aligned_end v = aligned_begin v + s * sizeof_T pf
            \<and> live (snd ?ctor) (raw_block v) \<noteq> None"
  have power: "?lib \<longleftrightarrow> ?room" if "\<exists>j. sizeof_S pf = 2 ^ j"
    using that by (auto simp only: std_align_None_iff)
  have assertion: "?lib \<longleftrightarrow> ?room"
    if sS: "0 < sizeof_S pf" and dv: "sizeof_T pf dvd sizeof_S pf"
      and fits: "(s + 2 * k) * sizeof_T pf \<le> 2 ^ ptrdiff_bits pf"
  proof -
    have k: "0 < k" and kT: "k * sizeof_T pf = sizeof_S pf" and t: "0 < sizeof_T pf"
      using lane_width_pos [OF sS dv] by (simp_all add: k_def)
    note nw = no_wrap [OF k t fits, folded rc_def]
    have b: "bytes = rc * sizeof_T pf" and rq: "required_count = rc + k"
      by (simp_all add: bytes_def required_count_def nw)
    have sp: "required_count * sizeof_T pf = bytes + sizeof_S pf"
      by (simp add: b rq add_mult_distrib kT)
    have "std_align (sizeof_S pf) bytes raw (required_count * sizeof_T pf) \<noteq> None" for raw
      unfolding sp using sS by (rule std_align_room)
    moreover have "\<exists>q. sizeof_S pf dvd q \<and> raw \<le> q
        \<and> q + bytes \<le> raw + required_count * sizeof_T pf" for raw
      unfolding sp using sS by (rule aligned_room)
    ultimately show ?thesis
      by simp
  qed
  have main: "(fst ?ctor = Inl alignment_exception \<longleftrightarrow> ?lib)
      \<and> requests (snd ?ctor) = Suc (requests h) \<and> ?state"
  proof (cases "gnuc pf")
    case True
    then have c: "?ctor = (if aligned_alloc pf h (sizeof_S pf) bytes = 0
        then (Inl alignment_exception, request h)
        else (Inr \<lparr>vec_k = int k, raw_block = aligned_alloc pf h (sizeof_S pf) bytes,
                    aligned_begin = aligned_alloc pf h (sizeof_S pf) bytes,
                    aligned_end = aligned_alloc pf h (sizeof_S pf) bytes + s * sizeof_T pf,
                    content_size = s\<rparr>,
              allocate (request h) (aligned_alloc pf h (sizeof_S pf) bytes) bytes))"
      by (simp add: simd_vector_ctor_def simd_vector_gnuc_def Let_def k_def rc_def bytes_def)
    show ?thesis
      unfolding c using True by (simp add: simd_vector_size_def allocate_def request_def)
  next
    case False
    show ?thesis
    proof (cases "new_array pf h required_count")
      case None
      with False have c: "?ctor = (Inl bad_alloc, request h)"
        by (simp add: simd_vector_ctor_def simd_vector_other_def Let_def k_def rc_def
            required_count_def)
      show ?thesis
        unfolding c using False None by (simp add: request_def)
    next
      case (Some raw)
      then have b: "to_size_t pf (required_count * sizeof_T pf) = required_count * sizeof_T pf"
        by (auto simp add: new_array_def to_size_t_def not_le split: if_splits)
      show ?thesis
      proof (cases "std_align (sizeof_S pf) bytes raw (required_count * sizeof_T pf)")
        case None
        with False Some b
        have c: "?ctor = (Inl alignment_exception, allocate (request h) raw (required_count * sizeof_T pf))"
          by (simp add: simd_vector_ctor_def simd_vector_other_def Let_def k_def [symmetric]
              rc_def [symmetric] bytes_def [symmetric] required_count_def [symmetric])
        show ?thesis
          unfolding c using False Some None by (simp add: allocate_def request_def)
      next
        case Some2: (Some res)
        obtain tb space where res: "res = (tb, space)"
          by (cases res)
        with False Some Some2 b
        have c: "?ctor = (Inr \<lparr>vec_k = int k, raw_block = raw, aligned_begin = tb,
                           aligned_end = tb + s * sizeof_T pf, content_size = s\<rparr>,
                          allocate (request h) raw (required_count * sizeof_T pf))"
          by (simp add: simd_vector_ctor_def simd_vector_other_def Let_def k_def [symmetric]
              rc_def [symmetric] bytes_def [symmetric] required_count_def [symmetric])
        show ?thesis
          unfolding c using False Some Some2
          by (simp add: simd_vector_size_def allocate_def request_def)
      qed
    qed
  qed
  from main power assertion have "(fst ?ctor = Inl alignment_exception \<longleftrightarrow> ?lib)
      \<and> ((\<exists>j. sizeof_S pf = 2 ^ j)
          \<or> (0 < sizeof_S pf \<and> sizeof_T pf dvd sizeof_S pf
              \<and> (s + 2 * k) * sizeof_T pf \<le> 2 ^ ptrdiff_bits pf) \<longrightarrow>
           (fst ?ctor = Inl alignment_exception \<longleftrightarrow> ?room))
      \<and> requests (snd ?ctor) = Suc (requests h) \<and> ?state"
    by blast
  then show ?thesis
    unfolding Let_def k_def [symmetric] rc_def [symmetric] bytes_def [symmetric]
      required_count_def [symmetric] .
qed

theorem alignment_exception_iff_witness:
  "fst (simd_vector_ctor gcc64_exhausted empty_heap 5) = Inl alignment_exception
   \<and> live (snd (simd_vector_ctor gcc64_exhausted empty_heap 5)) = live empty_heap
   \<and> requests (snd (simd_vector_ctor gcc64_exhausted empty_heap 5)) = 1
   \<and> fst (simd_vector_ctor gcc64 empty_heap 5)
       = Inr \<lparr>vec_k = 4, raw_block = 1024, aligned_begin = 1024, aligned_end = 1044, content_size = 5\<rparr>
   \<and> fst (simd_vector_ctor msvc64 empty_heap 5)
       = Inr \<lparr>vec_k = 4, raw_block = 4100, aligned_begin = 4112, aligned_end = 4132, content_size = 5\<rparr>"
proof -
  have gn: "gnuc gcc64_exhausted"
    and al: "aligned_alloc gcc64_exhausted empty_heap a n = 0" for a n
    by (simp_all add: gcc64_exhausted_def aligned_alloc_def)
  have rq: "requests empty_heap = 0"
    by (simp add: empty_heap_def)
  note iff = alignment_exception_iff [of gcc64_exhausted 5 empty_heap, unfolded Let_def]
  have x: "fst (simd_vector_ctor gcc64_exhausted empty_heap 5) = Inl alignment_exception"
    using iff gn al by simp
  have y: "live (snd (simd_vector_ctor gcc64_exhausted empty_heap 5)) = live empty_heap
      \<and> requests (snd (simd_vector_ctor gcc64_exhausted empty_heap 5)) = 1"
    using iff gn x rq by simp
  show ?thesis
    using x y ctor_gcc64_5 ctor_msvc64_5 by simp
qed

section \<open>Traversal and the difference type\<close>


lemma to_difference_type_exact:
  "to_difference_type pf n = int n \<longleftrightarrow> int n < 2 ^ (ptrdiff_bits pf - 1)"
proof -
  have "- (2 ^ (ptrdiff_bits pf - 1)) \<le> int n"
    by (rule order_trans [of _ 0]) simp_all
  then show ?thesis
    by (simp add: to_difference_type_def signed_take_bit_int_eq_self_iff)
qed






text \<open>
  C6, as amended. The difference type of the iterators is \<open>std::ptrdiff_t\<close> itself.
  The offset of \<open>end()\<close> and the difference \<open>end() - begin()\<close> are the element count
  exactly when the count is below \<open>2 ^ (w - 1)\<close>, \<open>w\<close> the width of
  \<open>std::ptrdiff_t\<close>: so they are exact for a container of more than \<open>2 ^ 31\<close>
  one-byte elements where \<open>std::ptrdiff_t\<close> has 64 bits.
\<close>

theorem difference_type_is_ptrdiff:
  "(offset (end_it pf v) = int (content_size v)
      \<longleftrightarrow> int (content_size v) < 2 ^ (ptrdiff_bits pf - 1))
   \<and> (it_diff (end_it pf v) (begin_it v) = int (content_size v)
      \<longleftrightarrow> int (content_size v) < 2 ^ (ptrdiff_bits pf - 1))"
  by (simp add: end_it_def begin_it_def it_diff_def to_difference_type_exact)

theorem difference_type_is_ptrdiff_witness:
  "offset (end_it gcc64_bytes \<lparr>vec_k = 4, raw_block = 4096, aligned_begin = 4096,
       aligned_end = 2147487745, content_size = 2147483649\<rparr>) = 2147483649"
  using difference_type_is_ptrdiff [of gcc64_bytes "\<lparr>vec_k = 4, raw_block = 4096, aligned_begin = 4096,
       aligned_end = 2147487745, content_size = 2147483649\<rparr>"]
  by (simp add: gcc64_bytes_def)

text \<open>
  C6 as stated fails: nothing in the iterators is wider than \<open>std::ptrdiff_t\<close>. Where
  it has 32 bits, the offset of \<open>end()\<close> of a container of \<open>2 ^ 31\<close> one-byte elements is
  truncated to \<open>- 2 ^ 31\<close>.
\<close>

theorem difference_type_truncates_counterexample:
  "offset (end_it gcc32_bytes \<lparr>vec_k = 4, raw_block = 4096, aligned_begin = 4096,
       aligned_end = 2147487744, content_size = 2147483648\<rparr>) = - 2147483648"
  by (simp add: end_it_def to_difference_type_def gcc32_bytes_def
      signed_take_bit_eq_take_bit_shift take_bit_eq_mod)


section \<open>Move construction, move assignment and destruction\<close>






section \<open>Further properties of the lane mapping, the constructor and the reduction\<close>

text \<open>
  The lane of a position holds its element (P3 of the specification): for an iterator
  inside a region whose length is a multiple of \<open>k\<close>, \<open>lower_block()\<close> is a lane
  inside the region, and its element at the index \<open>lower_offset()\<close> is the element the
  iterator refers to.
\<close>

theorem lane_round_trip:
  assumes "base it = start r" and "0 \<le> offset it" and "offset it < int (length (elems r))"
    and "0 < k" and "k dvd int (length (elems r))"
  shows "\<exists>lane. simd_deref k r (lower_block k it) = Inr lane
    \<and> 0 \<le> lower_offset k it \<and> nat (lower_offset k it) < length lane
    \<and> deref r it = Inr (lane ! nat (lower_offset k it))"
proof -
  obtain p c where ob: "offset it = int p" and k: "k = int c"
    using assms by (metis nat_0_le less_imp_le)
  have c: "0 < c" and dv: "c dvd length (elems r)" and pn: "p < length (elems r)"
    using assms ob k by simp_all
  have fits: "Suc (p div c) * c \<le> length (elems r)"
    using c dv pn by (rule lane_fits)
  let ?lane = "take c (drop (p div c * c) (elems r))"
  have lb: "lower_block (int c) it = \<lparr>simd_base = start r, simd_offset = int (p div c)\<rparr>"
    using ob c assms(1) by (simp add: lower_block_nat)
  have d: "simd_deref (int c) r (lower_block (int c) it) = Inr ?lane"
    using fits c by (simp add: lb simd_deref_nat del: mult_Suc)
  have lo: "lower_offset (int c) it = int (p mod c)"
    using ob c by (rule lower_offset_nat)
  have len: "length ?lane = c"
    using fits by simp
  have "?lane ! (p mod c) = elems r ! (p div c * c + p mod c)"
    using c fits by simp
  then have el: "?lane ! (p mod c) = elems r ! p"
    by simp
  have "deref r it = Inr (elems r ! p)"
    using assms(1) ob pn by (simp add: deref_nat)
  then show ?thesis
    using d lo len el c k by simp
qed

theorem lane_round_trip_witness:
  "simd_deref 4 \<lparr>start = 64, elems = [1, 2, 3, 4, 5, 6, 7, 8 :: int]\<rparr>
      (lower_block 4 \<lparr>base = 64, offset = 6\<rparr>) = Inr [5, 6, 7, 8]
   \<and> lower_offset 4 \<lparr>base = 64, offset = 6\<rparr> = 2
   \<and> deref \<lparr>start = 64, elems = [1, 2, 3, 4, 5, 6, 7, 8 :: int]\<rparr> \<lparr>base = 64, offset = 6\<rparr> = Inr 7"
  using lane_round_trip [of "\<lparr>base = 64, offset = 6\<rparr>"
      "\<lparr>start = 64, elems = [1, 2, 3, 4, 5, 6, 7, 8 :: int]\<rparr>" 4]
  by (simp add: simd_deref_def lower_block_def lower_offset_def deref_def
      signed_divide_int_def signed_modulo_int_def)

text \<open>
  The branch without \<open>__GNUC__\<close> never throws \<open>alignment_exception\<close> where nothing
  wraps around: the \<open>k\<close> extra elements are \<open>sizeof(S)\<close> bytes, and the aligned
  address is less than \<open>sizeof(S)\<close> bytes after the start of the block.
\<close>

theorem fallback_never_misaligned:
  assumes "\<not> gnuc pf" and sS: "0 < sizeof_S pf" and dv: "sizeof_T pf dvd sizeof_S pf"
    and fits: "(s + 2 * (sizeof_S pf div sizeof_T pf)) * sizeof_T pf \<le> 2 ^ ptrdiff_bits pf"
  shows "fst (simd_vector_ctor pf h s) \<noteq> Inl alignment_exception"
proof -
  define k where "k = sizeof_S pf div sizeof_T pf"
  define rc where "rc = rounded_count pf s k"
  have k: "0 < k" and kT: "k * sizeof_T pf = sizeof_S pf" and t: "0 < sizeof_T pf"
    using lane_width_pos [OF sS dv] by (simp_all add: k_def)
  note nw = no_wrap [OF k t fits [folded k_def], folded rc_def]
  have b: "to_size_t pf ((rc + k) * sizeof_T pf) = (rc + k) * sizeof_T pf"
    using nw(4) by (rule to_size_t_id)
  have na: "new_array pf h (rc + k) = operator_new pf h ((rc + k) * sizeof_T pf)"
    using nw(4) by (simp add: new_array_def)
  have sp: "(rc + k) * sizeof_T pf = rc * sizeof_T pf + sizeof_S pf"
    by (simp add: add_mult_distrib kT)
  have fit: "std_align (sizeof_S pf) (rc * sizeof_T pf) raw ((rc + k) * sizeof_T pf) \<noteq> None" for raw
    unfolding sp using sS by (rule std_align_room)
  show ?thesis
  proof (cases "operator_new pf h ((rc + k) * sizeof_T pf)")
    case None
    with assms(1) na show ?thesis
      by (simp add: simd_vector_ctor_def simd_vector_other_def Let_def k_def [symmetric]
          rc_def [symmetric] nw)
  next
    case (Some raw)
    from fit [of raw] obtain tb space
      where "std_align (sizeof_S pf) (rc * sizeof_T pf) raw ((rc + k) * sizeof_T pf) = Some (tb, space)"
      by (cases "std_align (sizeof_S pf) (rc * sizeof_T pf) raw ((rc + k) * sizeof_T pf)") auto
    with assms(1) Some na b show ?thesis
      by (simp add: simd_vector_ctor_def simd_vector_other_def Let_def k_def [symmetric]
          rc_def [symmetric] nw)
  qed
qed

theorem fallback_never_misaligned_witness:
  "fst (simd_vector_ctor msvc64 empty_heap 5) \<noteq> Inl alignment_exception
   \<and> fst (simd_vector_ctor msvc64 empty_heap 5)
      = Inr \<lparr>vec_k = 4, raw_block = 4100, aligned_begin = 4112, aligned_end = 4132, content_size = 5\<rparr>"
proof -
  have "fst (simd_vector_ctor msvc64 empty_heap 5) \<noteq> Inl alignment_exception"
    by (rule fallback_never_misaligned) (simp_all add: msvc64_def)
  with ctor_msvc64_5 show ?thesis by simp
qed

text \<open>The plain fold on floats whose sum does not round.\<close>

lemma tester_sum_float_exact:
  fixes r :: "float region"
  assumes "base b = start r" and "base e = start r"
    and "0 \<le> offset b" and "offset b \<le> offset e" and "offset e \<le> int (length (elems r))"
    and "take (nat (offset e - offset b)) (drop (nat (offset b)) (elems r)) = map (scaled j) vs"
    and "(\<Sum>v\<leftarrow>vs. \<bar>v\<bar>) \<le> 2 ^ 24" and "j \<le> 252"
  shows "tester_sum r b e = Inr (scaled j (sum_list vs))"
proof (cases "offset b = offset e")
  case True
  then have "\<not> it_ne b e"
    using assms(1,2) by (simp add: it_ne_def)
  moreover from True assms(6) have "vs = []"
    by simp
  ultimately show ?thesis
    by (simp add: tester_sum_def zero_float_def scaled_def)
next
  case False
  define e' where "e' = it_dec e"
  have e: "it_inc e' = e"
    by (simp add: e'_def it_inc_def it_dec_def)
  have core: "tester_simd_sum 1 r b e' = tester_sum r b (it_inc e')
    \<and> (offset e' < int (length (elems r)) \<longrightarrow>
          tester_simd_sum 1 r b e' = Inr (scaled j (sum_list vs)))"
  proof (rule simd_sum_float_exact)
    show "base b = start r" by fact
    show "base e' = start r" using assms(2) by (simp add: e'_def it_dec_def)
    show "0 \<le> offset b" by fact
    show "offset b \<le> offset e'" using False assms(4) by (simp add: e'_def it_dec_def)
    show "0 < (1::int)" by simp
    show "1 dvd int (length (elems r))" by simp
    show "take (nat (offset e' + 1 - offset b)) (drop (nat (offset b)) (elems r)) = map (scaled j) vs"
      using assms(6) by (simp add: e'_def it_dec_def)
    show "(\<Sum>v\<leftarrow>vs. \<bar>v\<bar>) \<le> 2 ^ 24" by fact
    show "j \<le> 252" by fact
  qed
  have "offset e' < int (length (elems r))"
    using assms(5) by (simp add: e'_def it_dec_def)
  with core [unfolded e] show ?thesis
    by metis
qed

text \<open>
  How \<open>simd_sum\<close> differs from \<open>sum\<close> on every range whose end is inside the region,
  where no addition rounds: it returns the plain fold over the range plus the element
  at the end iterator. For \<open>b == e\<close> that is the element at \<open>b\<close>.
\<close>

theorem simd_sum_adds_the_end_element:
  fixes r :: "float region"
  assumes "base b = start r" and "base e = start r"
    and "0 \<le> offset b" and "offset b \<le> offset e" and "offset e < int (length (elems r))"
    and "0 < k" and "k dvd int (length (elems r))"
    and "take (nat (offset e + 1 - offset b)) (drop (nat (offset b)) (elems r)) = map (scaled j) vs"
    and "(\<Sum>v\<leftarrow>vs. \<bar>v\<bar>) \<le> 2 ^ 24" and "j \<le> 252"
  shows "\<exists>x. tester_sum r b e = Inr x
    \<and> tester_simd_sum k r b e = Inr (x + elems r ! nat (offset e))"
proof -
  define p where "p = nat (offset b)"
  define q where "q = nat (offset e)"
  define X where "X = drop p (elems r)"
  define ws where "ws = take (q - p) vs"
  have ob: "offset b = int p" and oe: "offset e = int q"
    using assms(3,4) by (simp_all add: p_def q_def)
  have pq: "p \<le> q" and qn: "q < length (elems r)"
    using assms(4,5) ob oe by simp_all
  have m: "nat (offset e + 1 - offset b) = Suc (q - p)"
    using pq ob oe by (simp add: nat_diff_distrib Suc_diff_le nat_add_distrib)
  have vs: "take (Suc (q - p)) X = map (scaled j) vs"
    using assms(8) by (simp add: m X_def p_def)
  have lX: "q - p < length X"
    using pq qn by (simp add: X_def)
  have lvs: "length vs = Suc (q - p)"
    using arg_cong [OF vs, of length] lX by simp
  have split: "vs = ws @ [vs ! (q - p)]"
    using take_Suc_conv_app_nth [of "q - p" vs] lvs by (simp add: ws_def)
  have "take (q - p) X = take (q - p) (take (Suc (q - p)) X)"
    by (simp add: min_def)
  also have "\<dots> = map (scaled j) ws"
    by (simp only: vs ws_def take_map)
  finally have ws:
    "take (nat (offset e - offset b)) (drop (nat (offset b)) (elems r)) = map (scaled j) ws"
    using pq ob oe by (simp add: X_def nat_diff_distrib)
  have "(\<Sum>v\<leftarrow>vs. \<bar>v\<bar>) = (\<Sum>v\<leftarrow>ws. \<bar>v\<bar>) + \<bar>vs ! (q - p)\<bar>"
    by (subst split) simp
  with assms(9) have bws: "(\<Sum>v\<leftarrow>ws. \<bar>v\<bar>) \<le> 2 ^ 24"
    by simp
  have plain: "tester_sum r b e = Inr (scaled j (sum_list ws))"
    using assms(1,2,3,4) _ ws bws assms(10)
    by (rule tester_sum_float_exact) (use assms(5) in simp)
  have "tester_simd_sum k r b e = tester_sum r b (it_inc e)
    \<and> (offset e < int (length (elems r)) \<longrightarrow>
          tester_simd_sum k r b e = Inr (scaled j (sum_list vs)))"
    using assms(1,2,3,4,6,7,8,9,10) by (rule simd_sum_float_exact)
  with assms(5) have lane: "tester_simd_sum k r b e = Inr (scaled j (sum_list vs))"
    by blast
  have "map (scaled j) vs ! (q - p) = X ! (q - p)"
    by (simp only: vs [symmetric]) simp
  then have "scaled j (vs ! (q - p)) = X ! (q - p)"
    using lvs by simp
  also have "X ! (q - p) = elems r ! (p + (q - p))"
    unfolding X_def using pq qn by (intro nth_drop) simp
  finally have el: "elems r ! q = scaled j (vs ! (q - p))"
    using pq by simp
  have "\<bar>sum_list vs\<bar> \<le> (\<Sum>v\<leftarrow>vs. \<bar>v\<bar>)"
    by (rule sum_list_abs)
  with assms(9) have "\<bar>sum_list vs\<bar> \<le> 2 ^ 24"
    by simp
  then have "round_float (sum_list vs * 2 ^ j) = Float (sum_list vs * 2 ^ j)"
    using assms(10) by (rule round_float_small)
  moreover have "sum_list vs = sum_list ws + vs ! (q - p)"
    by (subst split) simp
  ultimately have "scaled j (sum_list ws) + scaled j (vs ! (q - p)) = scaled j (sum_list vs)"
    by (simp add: scaled_def distrib_right)
  with plain lane el show ?thesis
    by (simp add: q_def)
qed

theorem simd_sum_adds_the_end_element_witness:
  "tester_sum
      \<lparr>start = 64, elems = map float_of_int [1, 2, 3, 4, 5, 6, 7, 8]\<rparr>
      \<lparr>base = 64, offset = 1\<rparr> \<lparr>base = 64, offset = 6\<rparr> = Inr (float_of_int 20)
   \<and> tester_simd_sum 4
      \<lparr>start = 64, elems = map float_of_int [1, 2, 3, 4, 5, 6, 7, 8]\<rparr>
      \<lparr>base = 64, offset = 1\<rparr> \<lparr>base = 64, offset = 6\<rparr> = Inr (float_of_int 27)"
proof -
  have s: "tester_sum
      \<lparr>start = 64, elems = map float_of_int [1, 2, 3, 4, 5, 6, 7, 8]\<rparr>
      \<lparr>base = 64, offset = 1\<rparr> \<lparr>base = 64, offset = 6\<rparr> = Inr (float_of_int 20)"
    by code_simp
  have a: "float_of_int 20 + float_of_int 7 = float_of_int 27"
    by code_simp
  show ?thesis
    using simd_sum_adds_the_end_element [of "\<lparr>base = 64, offset = 1\<rparr>"
      "\<lparr>start = 64, elems = map float_of_int [1, 2, 3, 4, 5, 6, 7, 8]\<rparr>"
      "\<lparr>base = 64, offset = 6\<rparr>" 4 149 "[2, 3, 4, 5, 6, 7]"] s a
    by (auto simp add: float_of_int_small)
qed

text \<open>
  When the end iterator is at the end of the region, which is \<open>end()\<close> of a container
  whose size is a multiple of \<open>k\<close>, \<open>simd_sum\<close> reads the lane after the region,
  whatever the elements are, where \<open>sum\<close> returns a value.
\<close>

lemma tester_sum_loop_returns:
  fixes r :: "'a::plus region"
  assumes "base e = start r" and "offset e = int q" and "q \<le> length (elems r)"
  shows "base b = start r \<Longrightarrow> offset b = int p \<Longrightarrow> p \<le> q \<Longrightarrow> m = q - p \<Longrightarrow>
    \<exists>x. tester_sum_loop r b e acc = Inr x"
proof (induction m arbitrary: b p acc)
  case 0
  then have "p = q" by simp
  with 0 assms have "\<not> it_ne b e" by (simp add: it_ne_def)
  then show ?case by simp
next
  case (Suc m)
  then have pq: "p < q" by simp
  with Suc assms have ne: "it_ne b e" by (simp add: it_ne_def)
  have "p < length (elems r)" using pq assms(3) by simp
  with Suc.prems have d: "deref r b = Inr (elems r ! p)" by (simp add: deref_nat)
  have "\<exists>x. tester_sum_loop r (it_inc b) e (acc + elems r ! p) = Inr x"
    using Suc.prems pq by (intro Suc.IH [where p = "Suc p"]) (simp_all add: it_inc_def)
  with ne d show ?case by simp
qed

theorem simd_sum_to_the_end_faults:
  fixes r :: "'a::{plus,zero} region"
  assumes "base b = start r" and "base e = start r"
    and "0 \<le> offset b" and "offset b \<le> offset e" and "offset e = int (length (elems r))"
    and "0 < k" and "k dvd int (length (elems r))"
  shows "tester_simd_sum k r b e = Inl OutOfBounds \<and> (\<exists>x. tester_sum r b e = Inr x)"
proof -
  define q where "q = length (elems r)"
  obtain p c where ob: "offset b = int p" and k: "k = int c"
    using assms(3,6) by (metis nat_0_le less_imp_le)
  have oe: "offset e = int q"
    using assms(5) by (simp add: q_def)
  have pq: "p \<le> q"
    using assms(4) ob oe by simp
  have c: "0 < c"
    using assms(6) k by simp
  have dv: "c dvd length (elems r)"
    using assms(7) k by simp
  have "length (elems r) \<le> q"
    by (simp add: q_def)
  with assms(1,2) ob oe pq c dv have "tester_simd_sum (int c) r b e = Inl OutOfBounds"
    by (rule tester_simd_sum_outside)
  moreover have "\<exists>x. tester_sum_loop r b e 0 = Inr x"
    using assms(2) oe _ assms(1) ob pq
    by (rule tester_sum_loop_returns [where m = "q - p"]) (simp_all add: q_def)
  ultimately show ?thesis
    using k by (simp add: tester_sum_def)
qed

theorem simd_sum_to_the_end_faults_witness:
  "tester_simd_sum 4
      \<lparr>start = 64, elems = map float_of_int [1, 2, 3, 4, 5, 6, 7, 8]\<rparr>
      \<lparr>base = 64, offset = 1\<rparr> \<lparr>base = 64, offset = 8\<rparr> = Inl OutOfBounds
   \<and> tester_sum
      \<lparr>start = 64, elems = map float_of_int [1, 2, 3, 4, 5, 6, 7, 8]\<rparr>
      \<lparr>base = 64, offset = 1\<rparr> \<lparr>base = 64, offset = 8\<rparr> = Inr (float_of_int 35)"
proof -
  have s: "tester_sum
      \<lparr>start = 64, elems = map float_of_int [1, 2, 3, 4, 5, 6, 7, 8]\<rparr>
      \<lparr>base = 64, offset = 1\<rparr> \<lparr>base = 64, offset = 8\<rparr> = Inr (float_of_int 35)"
    by code_simp
  show ?thesis
    using simd_sum_to_the_end_faults [of "\<lparr>base = 64, offset = 1\<rparr>"
      "\<lparr>start = 64, elems = map float_of_int [1, 2, 3, 4, 5, 6, 7, 8]\<rparr>"
      "\<lparr>base = 64, offset = 8\<rparr>" 4] s
    by simp
qed

end
